theory Spec2Isabelle
  imports Main "HOL-Library.Word" "HOL-Library.Sublist"
begin

section \<open>JavaScript strings and values\<close>

text \<open>
  A JavaScript string is a sequence of UTF-16 code units; the regular expressions of the
  program carry no \<^verbatim>\<open>u\<close> flag, so they too work on code units.
\<close>

type_synonym jschar = "16 word"
type_synonym jsstring = "jschar list"

text \<open>An ASCII literal of the source, as code units.\<close>

definition js :: "string \<Rightarrow> jsstring" where
  "js s = map (\<lambda>c. of_nat (of_char c)) s"

abbreviation NL :: jschar where "NL \<equiv> 0x0A"
abbreviation CR :: jschar where "CR \<equiv> 0x0D"
abbreviation LT :: jschar where "LT \<equiv> 0x3C"
abbreviation GT :: jschar where "GT \<equiv> 0x3E"
abbreviation DQUOTE :: jschar where "DQUOTE \<equiv> 0x22"
abbreviation LBRACK :: jschar where "LBRACK \<equiv> 0x5B"
abbreviation RBRACK :: jschar where "RBRACK \<equiv> 0x5D"
abbreviation DOT :: jschar where "DOT \<equiv> 0x2E"

text \<open>
  The class \<^verbatim>\<open>\s\<close> of a regular expression and the characters removed by
  \<^verbatim>\<open>String.prototype.trim\<close> are the same set: WhiteSpace and LineTerminator of
  ECMAScript (TAB, LF, VT, FF, CR, SP, NBSP, U+1680, U+2000..U+200A, U+2028, U+2029,
  U+202F, U+205F, U+3000, U+FEFF).
\<close>

definition isSpace :: "jschar \<Rightarrow> bool" where
  "isSpace c = (c = 0x09 \<or> c = 0x0A \<or> c = 0x0B \<or> c = 0x0C \<or> c = 0x0D \<or> c = 0x20
      \<or> c = 0xA0 \<or> c = 0x1680 \<or> (0x2000 \<le> c \<and> c \<le> 0x200A) \<or> c = 0x2028
      \<or> c = 0x2029 \<or> c = 0x202F \<or> c = 0x205F \<or> c = 0x3000 \<or> c = 0xFEFF)"

text \<open>\<^verbatim>\<open>\d\<close>, \<^verbatim>\<open>[a-zA-Z]\<close> and \<^verbatim>\<open>\w\<close>.\<close>

definition isDigit :: "jschar \<Rightarrow> bool" where
  "isDigit c = (0x30 \<le> c \<and> c \<le> 0x39)"

definition isLower :: "jschar \<Rightarrow> bool" where
  "isLower c = (0x61 \<le> c \<and> c \<le> 0x7A)"

definition isUpper :: "jschar \<Rightarrow> bool" where
  "isUpper c = (0x41 \<le> c \<and> c \<le> 0x5A)"

definition isAlpha :: "jschar \<Rightarrow> bool" where
  "isAlpha c = (isLower c \<or> isUpper c)"

definition isWordChar :: "jschar \<Rightarrow> bool" where
  "isWordChar c = (isAlpha c \<or> isDigit c \<or> c = 0x5F)"

text \<open>\<^verbatim>\<open>String.prototype.trim\<close>.\<close>

definition trim :: "jsstring \<Rightarrow> jsstring" where
  "trim s = rev (dropWhile isSpace (rev (dropWhile isSpace s)))"

text \<open>
  The values a caller can pass. \<open>JObject\<close> stands for every value whose
  \<^verbatim>\<open>typeof\<close> is neither a primitive's nor \<^verbatim>\<open>'string'\<close> and that is truthy
  (objects, among them \<^verbatim>\<open>new String(..)\<close>, arrays, functions, symbols).
\<close>

datatype jsval =
    JUndefined
  | JNull
  | JBoolean bool
  | JNumber int
  | JNaN
  | JString jsstring
  | JObject nat

fun truthy :: "jsval \<Rightarrow> bool" where
  "truthy JUndefined = False"
| "truthy JNull = False"
| "truthy (JBoolean b) = b"
| "truthy (JNumber n) = (n \<noteq> 0)"
| "truthy JNaN = False"
| "truthy (JString s) = (s \<noteq> [])"
| "truthy (JObject _) = True"

fun typeof :: "jsval \<Rightarrow> string" where
  "typeof JUndefined = ''undefined''"
| "typeof JNull = ''object''"
| "typeof (JBoolean _) = ''boolean''"
| "typeof (JNumber _) = ''number''"
| "typeof JNaN = ''number''"
| "typeof (JString _) = ''string''"
| "typeof (JObject _) = ''object''"

text \<open>
  Calling a string method (\<^verbatim>\<open>replace\<close>, \<^verbatim>\<open>trim\<close>) on \<^verbatim>\<open>null\<close>,
  \<^verbatim>\<open>undefined\<close> or a value without that method raises a TypeError.
\<close>

datatype js_error = TypeError

section \<open>The PGN sanitizer\<close>

subsection \<open>The replacements of \<^verbatim>\<open>sanitizePGN\<close>\<close>

text \<open>
  \<^verbatim>\<open>replace(/<[^>]*>/g, '')\<close>. Scanning from the left, a \<^verbatim>\<open><\<close> that has a
  \<^verbatim>\<open>>\<close> somewhere after it starts a match that ends at the first such \<^verbatim>\<open>>\<close>
  (the class \<^verbatim>\<open>[^>]\<close> also matches line breaks); the match is deleted and the scan goes on
  behind it. Any other character is copied.
\<close>

function strip_tags :: "jsstring \<Rightarrow> jsstring" where
  "strip_tags [] = []"
| "strip_tags (c # cs) =
     (if c = LT \<and> GT \<in> set cs
      then strip_tags (tl (dropWhile (\<lambda>x. x \<noteq> GT) cs))
      else c # strip_tags cs)"
  by pat_completeness auto
termination
proof (relation "measure length", goal_cases)
  case 1
  show ?case by simp
next
  case (2 c cs)
  have "length (tl (dropWhile (\<lambda>x. x \<noteq> GT) cs)) \<le> length cs"
    using length_dropWhile_le [of "\<lambda>x. x \<noteq> GT" cs] by simp
  then show ?case by simp
next
  case (3 c cs)
  show ?case by simp
qed

text \<open>
  Matching an ASCII pattern character under the \<^verbatim>\<open>i\<close> flag (without \<^verbatim>\<open>u\<close>): the
  canonical form of a code unit is its upper case, except that a code unit of 128 or more
  is never mapped below 128. So an ASCII letter of the pattern matches its two cases and
  nothing else, and any other ASCII character matches itself only.
\<close>

definition ci_eq :: "jschar \<Rightarrow> jschar \<Rightarrow> bool" where
  "ci_eq p c = (c = p \<or> (isLower p \<and> c = p - 0x20) \<or> (isUpper p \<and> c = p + 0x20))"

fun ci_prefix :: "jsstring \<Rightarrow> jsstring \<Rightarrow> bool" where
  "ci_prefix [] s = True"
| "ci_prefix (p # ps) [] = False"
| "ci_prefix (p # ps) (c # cs) = (ci_eq p c \<and> ci_prefix ps cs)"

text \<open>
  The tail \<^verbatim>\<open>[^<]*(?:(?!<\/script>)<[^<]*)*<\/script>\<close> of the script pattern: it runs
  over the text up to the first place where \<^verbatim>\<open></script>\<close> starts (at a \<^verbatim>\<open><\<close> where
  the closing tag starts the group cannot iterate, and nowhere else can the closing tag
  match, so backtracking finds nothing more). The result is the number of code units
  matched, or \<open>None\<close> where no closing tag follows.
\<close>

fun script_close :: "jsstring \<Rightarrow> nat option" where
  "script_close [] = None"
| "script_close (c # cs) =
     (if ci_prefix (js ''</script>'') (c # cs) then Some 9
      else map_option Suc (script_close cs))"

text \<open>
  \<^verbatim>\<open>/<script\b[^<]*(?:(?!<\/script>)<[^<]*)*<\/script>/gi\<close> at the start of \<open>s\<close>:
  the length of the match. \<^verbatim>\<open>\b\<close> stands behind the word character \<^verbatim>\<open>t\<close>, so it
  holds when the text ends there or goes on with a non-word character.
\<close>

definition script_at :: "jsstring \<Rightarrow> nat option" where
  "script_at s =
     (if ci_prefix (js ''<script'') s
         \<and> (case drop 7 s of [] \<Rightarrow> True | d # _ \<Rightarrow> \<not> isWordChar d)
      then map_option (\<lambda>n. 7 + n) (script_close (drop 7 s))
      else None)"

text \<open>The global replacement of the script pattern by the empty string.\<close>

function strip_scripts :: "jsstring \<Rightarrow> jsstring" where
  "strip_scripts [] = []"
| "strip_scripts (c # cs) =
     (case script_at (c # cs) of
        Some n \<Rightarrow> strip_scripts (drop (n - 1) cs)
      | None \<Rightarrow> c # strip_scripts cs)"
  by pat_completeness auto
termination
  by (relation "measure length") auto

text \<open>\<^verbatim>\<open>replace(/\r\n/g, '\n')\<close> and \<^verbatim>\<open>replace(/\r/g, '\n')\<close>.\<close>

fun replace_crlf :: "jsstring \<Rightarrow> jsstring" where
  "replace_crlf (a # b # cs) =
     (if a = CR \<and> b = NL then NL # replace_crlf cs else a # replace_crlf (b # cs))"
| "replace_crlf cs = cs"

definition replace_cr :: "jsstring \<Rightarrow> jsstring" where
  "replace_cr s = map (\<lambda>c. if c = CR then NL else c) s"

text \<open>
  \<^verbatim>\<open>replace(/\n{3,}/g, '\n\n')\<close>: where three or more line feeds start, the whole run
  (the quantifier is greedy) is replaced by two line feeds.
\<close>

function collapse_newlines :: "jsstring \<Rightarrow> jsstring" where
  "collapse_newlines [] = []"
| "collapse_newlines (c # cs) =
     (if c = NL \<and> 2 \<le> length (takeWhile (\<lambda>x. x = NL) cs)
      then NL # NL # collapse_newlines (dropWhile (\<lambda>x. x = NL) cs)
      else c # collapse_newlines cs)"
  by pat_completeness auto
termination
proof (relation "measure length", goal_cases)
  case 1
  show ?case by simp
next
  case (2 c cs)
  show ?case
    using length_dropWhile_le [of "\<lambda>x. x = NL" cs] by simp
next
  case (3 c cs)
  show ?case by simp
qed

subsection \<open>\<^verbatim>\<open>sanitizePGN\<close>\<close>

text \<open>The body of \<^verbatim>\<open>sanitizePGN\<close> behind its guard, on the string it was given.\<close>

definition sanitize_string :: "jsstring \<Rightarrow> jsstring" where
  "sanitize_string pgn =
     (let sanitized = pgn;
          sanitized = strip_tags sanitized;
          sanitized = strip_scripts sanitized;
          sanitized = replace_crlf sanitized;
          sanitized = replace_cr sanitized;
          sanitized = collapse_newlines sanitized;
          sanitized = trim sanitized
      in sanitized)"

text \<open>
  \<^verbatim>\<open>sanitizePGN(pgn)\<close>. The guard \<^verbatim>\<open>!pgn || typeof pgn !== 'string'\<close> returns
  \<^verbatim>\<open>''\<close>; behind it the string methods are called on \<open>pgn\<close>, which raises a
  TypeError when \<open>pgn\<close> is not a string.
\<close>

definition sanitizePGN :: "jsval \<Rightarrow> js_error + jsstring" where
  "sanitizePGN pgn =
     (if \<not> truthy pgn \<or> typeof pgn \<noteq> ''string'' then Inr []
      else (case pgn of
              JString s \<Rightarrow> Inr (sanitize_string s)
            | _ \<Rightarrow> Inl TypeError))"


subsection \<open>\<^verbatim>\<open>split('\n')\<close>\<close>

text \<open>
  The lines of a text: the part before the first line feed, and, where there is a line
  feed, the lines of what follows it. The empty text has the one line \<^verbatim>\<open>''\<close>.
\<close>

function split_nl :: "jsstring \<Rightarrow> jsstring list" where
  "split_nl s =
     takeWhile (\<lambda>c. c \<noteq> NL) s #
       (case dropWhile (\<lambda>c. c \<noteq> NL) s of
          [] \<Rightarrow> []
        | _ # rest \<Rightarrow> split_nl rest)"
  by pat_completeness auto
termination
proof (relation "measure length", goal_cases)
  case 1
  show ?case by simp
next
  case (2 s x rest)
  have "length (dropWhile (\<lambda>c. c \<noteq> NL) s) \<le> length s"
    by (rule length_dropWhile_le)
  with 2 show ?case by simp
qed

declare split_nl.simps [simp del]

section \<open>The PGN validator\<close>

subsection \<open>Header extraction\<close>

text \<open>
  \<^verbatim>\<open>REGEX_PATTERNS.PGN_HEADER = /\[(\w+)\s+"([^"]+)"\]/\<close> at the start of \<open>s\<close>, with
  its two groups. Each greedy quantifier must be followed by a character outside its own
  class (white space behind \<^verbatim>\<open>\w+\<close>, the quote behind \<^verbatim>\<open>\s+\<close> and behind
  \<^verbatim>\<open>[^"]+\<close>), so only the longest run can lead to a match and backtracking adds nothing.
\<close>

definition header_at :: "jsstring \<Rightarrow> (jsstring \<times> jsstring) option" where
  "header_at s =
     (case s of
        [] \<Rightarrow> None
      | c # r0 \<Rightarrow>
          (let key = takeWhile isWordChar r0;
               r1 = dropWhile isWordChar r0;
               spaces = takeWhile isSpace r1;
               r2 = dropWhile isSpace r1;
               val = takeWhile (\<lambda>x. x \<noteq> DQUOTE) (tl r2);
               r3 = dropWhile (\<lambda>x. x \<noteq> DQUOTE) (tl r2)
           in if c = LBRACK \<and> key \<noteq> [] \<and> spaces \<noteq> [] \<and> take 1 r2 = [DQUOTE]
                 \<and> val \<noteq> [] \<and> take 2 r3 = [DQUOTE, RBRACK]
              then Some (key, val)
              else None))"

text \<open>
  \<^verbatim>\<open>line.match(REGEX_PATTERNS.PGN_HEADER)\<close>: the pattern is neither global nor anchored,
  so the result is the leftmost match in the line, or \<^verbatim>\<open>null\<close>.
\<close>

fun match_header :: "jsstring \<Rightarrow> (jsstring \<times> jsstring) option" where
  "match_header [] = None"
| "match_header (c # cs) =
     (case header_at (c # cs) of
        Some m \<Rightarrow> Some m
      | None \<Rightarrow> match_header cs)"

text \<open>
  The \<^verbatim>\<open>headers\<close> object. \<^verbatim>\<open>headers[key] = value\<close> stores an own property, except
  for the key \<^verbatim>\<open>__proto__\<close>, whose setter ignores a string. The program reads only the
  properties Event, Site, Date, White, Black, Result and Variant, none of which
  \<^verbatim>\<open>Object.prototype\<close> has, so a read finds what was stored or \<^verbatim>\<open>undefined\<close>.
\<close>

type_synonym headers = "jsstring \<rightharpoonup> jsstring"

definition set_header :: "headers \<Rightarrow> jsstring \<Rightarrow> jsstring \<Rightarrow> headers" where
  "set_header h key val = (if key = js ''__proto__'' then h else h(key \<mapsto> val))"

definition extractHeaders :: "jsstring \<Rightarrow> headers" where
  "extractHeaders pgn =
     fold (\<lambda>line headers.
             case match_header line of
               Some (key, val) \<Rightarrow> set_header headers key val
             | None \<Rightarrow> headers)
          (split_nl pgn) Map.empty"

text \<open>The truth value of \<^verbatim>\<open>headers[k]\<close>: \<^verbatim>\<open>undefined\<close> and \<^verbatim>\<open>''\<close> are falsy.\<close>

definition has_header :: "headers \<Rightarrow> jsstring \<Rightarrow> bool" where
  "has_header h k = (case h k of None \<Rightarrow> False | Some v \<Rightarrow> v \<noteq> [])"

subsection \<open>\<^verbatim>\<open>checkForMoves\<close>\<close>

text \<open>
  \<^verbatim>\<open>/\d+\.\s*[a-zA-Z]/\<close> at the start of \<open>s\<close>; again only the longest runs of digits
  and of white space can lead to a match.
\<close>

definition move_at :: "jsstring \<Rightarrow> bool" where
  "move_at s =
     (let digits = takeWhile isDigit s;
          r1 = dropWhile isDigit s;
          r2 = dropWhile isSpace (tl r1)
      in digits \<noteq> [] \<and> take 1 r1 = [DOT]
         \<and> (case r2 of [] \<Rightarrow> False | l # _ \<Rightarrow> isAlpha l))"

text \<open>\<^verbatim>\<open>movePattern.test(pgn)\<close>: the pattern matches somewhere in the text.\<close>

fun checkForMoves :: "jsstring \<Rightarrow> bool" where
  "checkForMoves [] = False"
| "checkForMoves (c # cs) = (move_at (c # cs) \<or> checkForMoves cs)"

subsection \<open>\<^verbatim>\<open>validatePGN\<close>\<close>

record validation =
  valid :: bool
  errors :: "jsstring list"
  warnings :: "jsstring list"

definition REQUIRED_HEADERS :: "jsstring list" where
  "REQUIRED_HEADERS =
     [js ''Event'', js ''Site'', js ''Date'', js ''White'', js ''Black'', js ''Result'']"

definition validResults :: "jsstring list" where
  "validResults = [js ''1-0'', js ''0-1'', js ''1/2-1/2'', js ''*'']"

text \<open>
  \<^verbatim>\<open>headers.Variant.toLowerCase() !== 'atomic'\<close>. No code unit outside ASCII has a lower
  case that is one of the letters of \<^verbatim>\<open>atomic\<close> (U+212A gives \<^verbatim>\<open>k\<close>, U+0130 gives two
  code units), so the lower-cased text is \<^verbatim>\<open>atomic\<close> exactly when the text is, up to the
  case of its ASCII letters.
\<close>

definition ascii_lower :: "jschar \<Rightarrow> jschar" where
  "ascii_lower c = (if isUpper c then c + 0x20 else c)"

definition lower_is_atomic :: "jsstring \<Rightarrow> bool" where
  "lower_is_atomic v = (map ascii_lower v = js ''atomic'')"

text \<open>
  The body of \<^verbatim>\<open>validatePGN\<close> behind its first guard. The calls of \<^verbatim>\<open>log\<close> write to
  the console only and are left out.
\<close>

definition validate_string :: "jsstring \<Rightarrow> validation" where
  "validate_string pgn =
     (let trimmedPGN = trim pgn in
      if length trimmedPGN = 0
      then \<lparr>valid = False, errors = [js ''PGN is empty''], warnings = []\<rparr>
      else
        (let headers = extractHeaders trimmedPGN;
             errors = map (\<lambda>requiredHeader. js ''Missing required header: '' @ requiredHeader)
                        (filter (\<lambda>requiredHeader. \<not> has_header headers requiredHeader)
                           REQUIRED_HEADERS);
             hasMoves = checkForMoves trimmedPGN;
             warnings = (if \<not> hasMoves then [js ''No moves found in PGN''] else []);
             warnings = warnings @
               (case headers (js ''Result'') of
                  None \<Rightarrow> []
                | Some result \<Rightarrow>
                    if result \<noteq> [] \<and> result \<notin> set validResults
                    then [js ''Unusual result format: '' @ result]
                    else []);
             warnings = warnings @
               (if \<not> has_header headers (js ''Variant'')
                then [js ''No Variant header found (should be '' @ [DQUOTE] @ js ''atomic''
                        @ [DQUOTE] @ js '' for atomic chess)'']
                else if \<not> lower_is_atomic (the (headers (js ''Variant'')))
                then [js ''Variant is '' @ [DQUOTE] @ the (headers (js ''Variant'')) @ [DQUOTE]
                        @ js '' (expected '' @ [DQUOTE] @ js ''atomic'' @ [DQUOTE] @ js '')'']
                else []);
             valid = (length errors = 0)
         in \<lparr>valid = valid, errors = errors, warnings = warnings\<rparr>))"

text \<open>
  \<^verbatim>\<open>validatePGN(pgn)\<close>. Behind the guard \<^verbatim>\<open>pgn.trim()\<close> is called, which raises a
  TypeError when \<open>pgn\<close> is not a string.
\<close>

definition validatePGN :: "jsval \<Rightarrow> js_error + validation" where
  "validatePGN pgn =
     (if \<not> truthy pgn \<or> typeof pgn \<noteq> ''string''
      then Inr \<lparr>valid = False, errors = [js ''PGN is empty or invalid type''], warnings = []\<rparr>
      else (case pgn of
              JString s \<Rightarrow> Inr (validate_string s)
            | _ \<Rightarrow> Inl TypeError))"

subsection \<open>Shapes of records\<close>

text \<open>The text \<^verbatim>\<open>[k "v"]\<close>, with the white space \<open>ws\<close> between key and value.\<close>

definition header_text :: "jsstring \<Rightarrow> jsstring \<Rightarrow> jsstring \<Rightarrow> jsstring" where
  "header_text k ws v = LBRACK # k @ ws @ DQUOTE # v @ [DQUOTE, RBRACK]"

text \<open>
  A line mentions the header \<open>k\<close> with value \<open>v\<close>: it contains \<^verbatim>\<open>[k "v"]\<close>, with
  some white space between key and value and a value that is not empty and has no quote
  in it.
\<close>

definition mentions_header :: "jsstring \<Rightarrow> jsstring \<Rightarrow> jsstring \<Rightarrow> bool" where
  "mentions_header k v line =
     (\<exists>pre ws post. line = pre @ header_text k ws v @ post
        \<and> ws \<noteq> [] \<and> (\<forall>c \<in> set ws. isSpace c) \<and> v \<noteq> [] \<and> DQUOTE \<notin> set v)"

text \<open>
  A header line for \<open>k\<close> with value \<open>v\<close>: a line that mentions the header and has no
  \<^verbatim>\<open>[\<close> before it (indentation before and anything behind, such as a carriage return
  or a comment, are allowed).
\<close>

definition header_line :: "jsstring \<Rightarrow> jsstring \<Rightarrow> jsstring \<Rightarrow> bool" where
  "header_line k v line =
     (\<exists>pre ws post. line = pre @ header_text k ws v @ post \<and> LBRACK \<notin> set pre
        \<and> ws \<noteq> [] \<and> (\<forall>c \<in> set ws. isSpace c) \<and> v \<noteq> [] \<and> DQUOTE \<notin> set v)"

text \<open>
  A move token: a digit, a full stop, optional white space and a letter, as in
  \<^verbatim>\<open>1. e4\<close> or \<^verbatim>\<open>12.Nf3\<close>.
\<close>

definition has_move_token :: "jsstring \<Rightarrow> bool" where
  "has_move_token pgn =
     (\<exists>pre d ws l post. pgn = pre @ d # DOT # ws @ l # post
        \<and> isDigit d \<and> (\<forall>c \<in> set ws. isSpace c) \<and> isAlpha l)"

subsection \<open>Example records\<close>

text \<open>
  Six header lines, a blank line and the moves \<^verbatim>\<open>1. e4\<close>; the same record with the
  result \<^verbatim>\<open>??\<close>; and the record without its Result line.
\<close>

definition sample_record :: jsstring where
  "sample_record =
     header_text (js ''Event'') (js '' '') (js ''x'') @ NL #
     header_text (js ''Site'') (js '' '') (js ''x'') @ NL #
     header_text (js ''Date'') (js '' '') (js ''x'') @ NL #
     header_text (js ''White'') (js '' '') (js ''x'') @ NL #
     header_text (js ''Black'') (js '' '') (js ''x'') @ NL #
     header_text (js ''Result'') (js '' '') (js ''1-0'') @ NL #
     NL # js ''1. e4''"

definition sample_unusual :: jsstring where
  "sample_unusual =
     header_text (js ''Event'') (js '' '') (js ''x'') @ NL #
     header_text (js ''Site'') (js '' '') (js ''x'') @ NL #
     header_text (js ''Date'') (js '' '') (js ''x'') @ NL #
     header_text (js ''White'') (js '' '') (js ''x'') @ NL #
     header_text (js ''Black'') (js '' '') (js ''x'') @ NL #
     header_text (js ''Result'') (js '' '') (js ''??'') @ NL #
     NL # js ''1. e4''"

definition sample_no_result :: jsstring where
  "sample_no_result =
     header_text (js ''Event'') (js '' '') (js ''x'') @ NL #
     header_text (js ''Site'') (js '' '') (js ''x'') @ NL #
     header_text (js ''Date'') (js '' '') (js ''x'') @ NL #
     header_text (js ''White'') (js '' '') (js ''x'') @ NL #
     header_text (js ''Black'') (js '' '') (js ''x'') @ NL #
     NL # js ''1. e4''"

section \<open>The element-wait utility\<close>

text \<open>
  \<^verbatim>\<open>waitForElement(selectors, timeout, root)\<close>. The page under \<open>root\<close> at the time of
  a query is the function \<open>query\<close>: \<^verbatim>\<open>root.querySelector(selector)\<close> gives the first
  element that matches, or \<^verbatim>\<open>null\<close>. Selectors are valid CSS selectors (all the program
  passes are constants of \<^verbatim>\<open>CHESS_COM_SELECTORS\<close> and \<^verbatim>\<open>LICHESS_SELECTORS\<close>).
  \<^verbatim>\<open>selectors\<close> is one selector or an array of them.
\<close>

datatype 'sel selectors = One 'sel | Many "'sel list"

fun selectorArray :: "'sel selectors \<Rightarrow> 'sel list" where
  "selectorArray (Many sels) = sels"
| "selectorArray (One sel) = [sel]"

text \<open>
  The loop that both the first try and the observer's callback run: the element of the
  first selector, in the order of the array, that matches.
\<close>

fun first_match :: "('sel \<Rightarrow> 'el option) \<Rightarrow> 'sel list \<Rightarrow> 'el option" where
  "first_match query [] = None"
| "first_match query (selector # rest) =
     (case query selector of
        Some element \<Rightarrow> Some element
      | None \<Rightarrow> first_match query rest)"

text \<open>
  What a call has done to the promise and to the page: whether the promise is settled and
  how, the delay of the timeout that is pending, and whether a \<^verbatim>\<open>MutationObserver\<close>
  of this call is observing \<open>root\<close>.
\<close>

datatype 'el settled = Resolved 'el | Rejected

record 'el wait =
  outcome :: "'el settled option"
  pending_timeout :: "nat option"
  observing :: bool

text \<open>The executor of the promise, which runs inside the call.\<close>

definition waitForElement :: "'sel selectors \<Rightarrow> nat \<Rightarrow> ('sel \<Rightarrow> 'el option) \<Rightarrow> 'el wait" where
  "waitForElement selectors timeout query =
     (case first_match query (selectorArray selectors) of
        Some element \<Rightarrow>
          \<lparr>outcome = Some (Resolved element), pending_timeout = None, observing = False\<rparr>
      | None \<Rightarrow>
          \<lparr>outcome = None, pending_timeout = Some timeout, observing = True\<rparr>)"

text \<open>The observer's callback, on a mutation that leaves the page as \<open>query\<close>.\<close>

definition on_mutation :: "'sel selectors \<Rightarrow> ('sel \<Rightarrow> 'el option) \<Rightarrow> 'el wait \<Rightarrow> 'el wait" where
  "on_mutation selectors query w =
     (if \<not> observing w then w
      else (case first_match query (selectorArray selectors) of
              Some element \<Rightarrow>
                \<lparr>outcome = Some (Resolved element), pending_timeout = None, observing = False\<rparr>
            | None \<Rightarrow> w))"

text \<open>The callback of the timeout.\<close>

definition on_timeout :: "'el wait \<Rightarrow> 'el wait" where
  "on_timeout w =
     (if pending_timeout w = None then w
      else \<lparr>outcome = Some Rejected, pending_timeout = None, observing = False\<rparr>)"

section \<open>The destination-page agent\<close>

text \<open>A thrown value: its \<^verbatim>\<open>name\<close> and its \<^verbatim>\<open>message\<close>.\<close>

record js_exn =
  exn_name :: jsstring
  exn_message :: jsstring

text \<open>\<^verbatim>\<open>new Error(message)\<close>.\<close>

definition Error :: "jsstring \<Rightarrow> js_exn" where
  "Error message = \<lparr>exn_name = js ''Error'', exn_message = message\<rparr>"

text \<open>The entries of \<^verbatim>\<open>ERROR_MESSAGES\<close> and the other messages that are shown.\<close>

definition PGN_NOT_FOUND :: jsstring where
  "PGN_NOT_FOUND = js ''Game data not found. Please ensure the game is fully loaded.''"

definition CLIPBOARD_WRITE_DENIED :: jsstring where
  "CLIPBOARD_WRITE_DENIED = js ''Clipboard access denied. Please check browser permissions.''"

definition CLIPBOARD_READ_DENIED :: jsstring where
  "CLIPBOARD_READ_DENIED =
     js ''Could not read clipboard. Please check browser permissions or paste manually.''"

definition LICHESS_TAB_FAILED :: jsstring where
  "LICHESS_TAB_FAILED = js ''Could not open Lichess tab. Please check if pop-ups are blocked.''"

definition TEXTAREA_NOT_FOUND :: jsstring where
  "TEXTAREA_NOT_FOUND = js ''Paste area not found. Please try manually.''"

definition GENERIC_ERROR :: jsstring where
  "GENERIC_ERROR = js ''An error occurred. Please try again.''"

definition EXTRACTING_PGN :: jsstring where
  "EXTRACTING_PGN = js ''Extracting game data...''"

definition OPENING_LICHESS :: jsstring where
  "OPENING_LICHESS = js ''Opening Lichess...''"

definition PASTING_DATA :: jsstring where
  "PASTING_DATA = js ''Pasting game data...''"

definition SUBMITTING_FORM :: jsstring where
  "SUBMITTING_FORM = js ''Loading analysis...''"

definition SENT_TO_LICHESS :: jsstring where
  "SENT_TO_LICHESS = js ''Game sent to Lichess!''"

definition READY_FOR_ANALYSIS :: jsstring where
  "READY_FOR_ANALYSIS = js ''Ready for analysis!''"

text \<open>\<^verbatim>\<open>error.message || ERROR_MESSAGES.GENERIC_ERROR\<close>.\<close>

definition message_or_generic :: "js_exn \<Rightarrow> jsstring" where
  "message_or_generic error = (if exn_message error \<noteq> [] then exn_message error else GENERIC_ERROR)"

text \<open>
  What the agents do to the page, the clipboard and the browser, in the order in which
  they do it. A notification is known by the number in its id. The calls of \<^verbatim>\<open>log\<close>
  write to the console only and are left out.
\<close>

datatype notification_type = Loading | Success | Failure

datatype event =
    ShowNotification nat jsstring notification_type
  | UpdateNotification nat jsstring notification_type
  | SetValue jsstring
  | DispatchEvent string
  | SubmitFormCalled
  | FormSubmit
  | SubmitButtonClick
  | ExtractPGN
  | ClipboardWrite jsstring
  | OpenTab string
  | SetButton string
  | SetTimeout nat

text \<open>
  \<^verbatim>\<open>pastePGN(textarea)\<close>, on the outcome of \<^verbatim>\<open>navigator.clipboard.readText()\<close>: the
  text, or the value the read is rejected with. First the body of the \<^verbatim>\<open>try\<close>, then the
  \<^verbatim>\<open>catch\<close> around it, which also catches the error that the body throws itself.
\<close>

definition pastePGN_try :: "js_exn + jsstring \<Rightarrow> js_exn + event list" where
  "pastePGN_try clipboard =
     (case clipboard of
        Inl error \<Rightarrow> Inl error
      | Inr text \<Rightarrow>
          if text = [] \<or> length (trim text) = 0
          then Inl (Error (js ''Clipboard is empty''))
          else Inr [SetValue text, DispatchEvent ''input'', DispatchEvent ''change''])"

definition pastePGN :: "js_exn + jsstring \<Rightarrow> js_exn + event list" where
  "pastePGN clipboard =
     (case pastePGN_try clipboard of
        Inr events \<Rightarrow> Inr events
      | Inl error \<Rightarrow>
          if exn_name error = js ''NotAllowedError''
          then Inl (Error CLIPBOARD_READ_DENIED)
          else Inl (Error CLIPBOARD_READ_DENIED))"

text \<open>
  \<^verbatim>\<open>submitForm(textarea)\<close>: submits the form of the text area, or else clicks the submit
  button, or else does nothing; it never throws.
\<close>

definition submitForm :: "bool \<Rightarrow> bool \<Rightarrow> event list" where
  "submitForm has_form has_submit_button =
     (if \<not> has_form
      then (if has_submit_button then [SubmitButtonClick] else [])
      else [FormSubmit])"

text \<open>
  The page as the destination agent meets it: the path, whether the text area appears
  within the timeout, what the clipboard read gives, and whether there is a form or a
  submit button. \<open>next_id\<close> is the number of the next notification.
\<close>

record paste_page =
  pathname :: jsstring
  textarea_found :: bool
  clipboard :: "js_exn + jsstring"
  has_form :: bool
  has_submit_button :: bool
  next_id :: nat

text \<open>
  \<^verbatim>\<open>initializeLichessPaste()\<close>, from the run guard \<open>hasRun\<close> to the new value of the
  guard and the events. The body of its \<^verbatim>\<open>try\<close> gives the events done and, where it throws,
  the error. \<^verbatim>\<open>showLoading\<close> comes first and returns the id of the notification it has
  shown, a non-empty string, so the \<^verbatim>\<open>catch\<close> finds \<^verbatim>\<open>notificationId\<close> set and updates
  that notification. The time a notification stays is left out.
\<close>

definition paste_try :: "paste_page \<Rightarrow> event list \<times> js_exn option" where
  "paste_try page =
     (let shown = [ShowNotification (next_id page) PASTING_DATA Loading] in
      if \<not> textarea_found page then (shown, Some (Error TEXTAREA_NOT_FOUND))
      else
        (case pastePGN (clipboard page) of
           Inl error \<Rightarrow> (shown, Some error)
         | Inr pasted \<Rightarrow>
             (shown @ pasted
                @ [UpdateNotification (next_id page) SUBMITTING_FORM Loading, SubmitFormCalled]
                @ submitForm (has_form page) (has_submit_button page)
                @ [UpdateNotification (next_id page) READY_FOR_ANALYSIS Success],
              None)))"

definition initializeLichessPaste :: "paste_page \<Rightarrow> bool \<Rightarrow> bool \<times> event list" where
  "initializeLichessPaste page hasRun =
     (if pathname page \<noteq> js ''/paste'' then (hasRun, [])
      else if hasRun then (hasRun, [])
      else
        (case paste_try page of
           (events, None) \<Rightarrow> (True, events)
         | (events, Some error) \<Rightarrow>
             (True, events @ [UpdateNotification (next_id page) (message_or_generic error) Failure])))"

subsection \<open>An example page\<close>

text \<open>The paste page with a text area and a clipboard that holds one space.\<close>

definition page0 :: paste_page where
  "page0 = \<lparr>pathname = js ''/paste'', textarea_found = True, clipboard = Inr (js '' ''),
            has_form = True, has_submit_button = True, next_id = 1\<rparr>"

section \<open>The source-page agent\<close>

subsection \<open>The click handler\<close>

text \<open>
  The module's variables \<^verbatim>\<open>isProcessing\<close> and \<^verbatim>\<open>sendButton\<close> (whether it is set), what
  \<^verbatim>\<open>updateButtonState\<close> last made of the button (its look, and whether its
  \<^verbatim>\<open>pointerEvents\<close> style is \<^verbatim>\<open>'auto'\<close> rather than \<^verbatim>\<open>'none'\<close>), and the
  notification module's \<^verbatim>\<open>notificationCounter\<close>.
\<close>

record source_state =
  isProcessing :: bool
  sendButton :: bool
  button :: string
  pointerEvents :: bool
  notificationCounter :: nat

text \<open>
  What the page and the browser answer to a run of the handler: the outcome of
  \<^verbatim>\<open>extractPGN()\<close>, whether the clipboard write is allowed, whether the new tab opens, and
  the time in milliseconds that the awaited operations of the run take together.
\<close>

record source_page =
  extracted :: "js_exn + jsstring"
  clipboard_writable :: bool
  tab_opens :: bool
  work_ms :: nat

text \<open>
  \<^verbatim>\<open>updateButtonState(state)\<close>: nothing without a button. \<^verbatim>\<open>'loading'\<close> sets
  \<^verbatim>\<open>pointerEvents\<close> to \<^verbatim>\<open>'none'\<close>, \<^verbatim>\<open>'success'\<close> leaves it as it is, \<^verbatim>\<open>'error'\<close> and
  \<^verbatim>\<open>'idle'\<close> (also the \<^verbatim>\<open>default\<close> of the \<^verbatim>\<open>switch\<close>) set it to \<^verbatim>\<open>'auto'\<close>.
\<close>

definition updateButtonState :: "string \<Rightarrow> source_state \<Rightarrow> source_state \<times> event list" where
  "updateButtonState state st =
     (if \<not> sendButton st then (st, [])
      else if state = ''loading''
      then (st\<lparr>button := ''loading'', pointerEvents := False\<rparr>, [SetButton ''loading''])
      else if state = ''success''
      then (st\<lparr>button := ''success''\<rparr>, [SetButton ''success''])
      else if state = ''error''
      then (st\<lparr>button := ''error'', pointerEvents := True\<rparr>, [SetButton ''error''])
      else (st\<lparr>button := ''idle'', pointerEvents := True\<rparr>, [SetButton ''idle'']))"

text \<open>
  \<^verbatim>\<open>handleButtonClick()\<close> from its call to its first \<^verbatim>\<open>await\<close>: \<open>None\<close> where the guard
  \<^verbatim>\<open>if (isProcessing) return\<close> ends the call, else the new state and the events.
  \<^verbatim>\<open>showLoading\<close> counts \<^verbatim>\<open>notificationCounter\<close> up and gives the notification that
  number, which the handler keeps in \<^verbatim>\<open>notificationId\<close>.
\<close>

definition handleButtonClick_call :: "source_state \<Rightarrow> (source_state \<times> event list) option" where
  "handleButtonClick_call st =
     (if isProcessing st then None
      else
        (let st = st\<lparr>isProcessing := True\<rparr>;
             (st, loading) = updateButtonState ''loading'' st;
             st = st\<lparr>notificationCounter := Suc (notificationCounter st)\<rparr>
         in Some (st, loading
                    @ [ShowNotification (notificationCounter st) EXTRACTING_PGN Loading,
                       ExtractPGN])))"

text \<open>
  The rest of the \<^verbatim>\<open>try\<close>, from the outcome of \<^verbatim>\<open>extractPGN()\<close> to the clipboard and
  the tab: the events done and, where it throws, the error.
\<close>

definition click_try :: "source_page \<Rightarrow> nat \<Rightarrow> event list \<times> js_exn option" where
  "click_try page notificationId =
     (case extracted page of
        Inl error \<Rightarrow> ([], Some error)
      | Inr pgn \<Rightarrow>
          if pgn = [] then ([], Some (Error PGN_NOT_FOUND))
          else
            (let updated = [UpdateNotification notificationId OPENING_LICHESS Loading] in
             case sanitizePGN (JString pgn) of
               Inl _ \<Rightarrow> (updated, Some \<lparr>exn_name = js ''TypeError'', exn_message = []\<rparr>)
             | Inr cleanPGN \<Rightarrow>
                 if \<not> clipboard_writable page
                 then (updated, Some (Error CLIPBOARD_WRITE_DENIED))
                 else if \<not> tab_opens page
                 then (updated @ [ClipboardWrite cleanPGN], Some (Error LICHESS_TAB_FAILED))
                 else (updated @ [ClipboardWrite cleanPGN, OpenTab ''https://lichess.org/paste''],
                       None)))"

text \<open>
  \<^verbatim>\<open>handleButtonClick()\<close> from the end of its awaits to its return: the new state, the
  events, and the delay of the \<^verbatim>\<open>setTimeout\<close> whose callback is \<open>reset_button\<close>. The three
  awaits (extraction, clipboard write, tab) are taken as one wait.
\<close>

definition handleButtonClick_resume ::
  "source_page \<Rightarrow> nat \<Rightarrow> source_state \<Rightarrow> source_state \<times> event list \<times> nat" where
  "handleButtonClick_resume page notificationId st =
     (case click_try page notificationId of
        (events, None) \<Rightarrow>
          (let (st, done) = updateButtonState ''success'' st
           in (st, events @ done
                 @ [UpdateNotification notificationId SENT_TO_LICHESS Success, SetTimeout 2000],
               2000))
      | (events, Some error) \<Rightarrow>
          (let (st, failed) = updateButtonState ''error'' st
           in (st, events @ failed
                 @ [UpdateNotification notificationId (message_or_generic error) Failure,
                    SetTimeout 3000],
               3000)))"

definition reset_button :: "source_state \<Rightarrow> source_state \<times> event list" where
  "reset_button st =
     (let (st, events) = updateButtonState ''idle'' st
      in (st\<lparr>isProcessing := False\<rparr>, events))"

subsection \<open>The listener and the timers\<close>

text \<open>
  Time is counted in milliseconds, and a pending timer is kept as the time at which it is
  due. The agent on its page: the state above, the \<^verbatim>\<open>notificationId\<close> of the run of the
  handler, the \<^verbatim>\<open>timeoutId\<close> of the debounced listener, the time at which the awaits of the
  running handler end, the timer of the reset, and the events so far.
\<close>

record agent =
  src :: source_state
  notificationId :: nat
  debounce_timer :: "nat option"
  resume_timer :: "nat option"
  reset_timer :: "nat option"
  history :: "event list"

text \<open>
  The button's click listener is \<^verbatim>\<open>debounce(handleButtonClick, 300)\<close>. A click event that
  reaches it at time \<open>t\<close> runs \<^verbatim>\<open>clearTimeout(timeoutId)\<close> and
  \<^verbatim>\<open>timeoutId = setTimeout(..., 300)\<close>, and nothing else.
\<close>

definition debounced :: "nat \<Rightarrow> agent \<Rightarrow> agent" where
  "debounced t a = a\<lparr>debounce_timer := Some (t + 300)\<rparr>"

text \<open>
  A click with the pointer reaches the listener only while the button's
  \<^verbatim>\<open>pointerEvents\<close> is \<^verbatim>\<open>'auto'\<close>.
\<close>

definition pointer_click :: "nat \<Rightarrow> agent \<Rightarrow> agent" where
  "pointer_click t a = (if pointerEvents (src a) then debounced t a else a)"

text \<open>
  What happens when something pending is due at time \<open>t\<close>: the debounce timer calls the
  handler, the awaits of the handler end, or the reset runs.
\<close>

definition fire_debounce :: "nat \<Rightarrow> source_page \<Rightarrow> agent \<Rightarrow> agent" where
  "fire_debounce t page a =
     (case handleButtonClick_call (src a) of
        None \<Rightarrow> a\<lparr>debounce_timer := None\<rparr>
      | Some (st, events) \<Rightarrow>
          a\<lparr>src := st, notificationId := notificationCounter st,
            debounce_timer := None, resume_timer := Some (t + work_ms page),
            history := history a @ events\<rparr>)"

definition fire_resume :: "nat \<Rightarrow> source_page \<Rightarrow> agent \<Rightarrow> agent" where
  "fire_resume t page a =
     (case handleButtonClick_resume page (notificationId a) (src a) of
        (st, events, delay) \<Rightarrow>
          a\<lparr>src := st, resume_timer := None, reset_timer := Some (t + delay),
            history := history a @ events\<rparr>)"

definition fire_reset :: "agent \<Rightarrow> agent" where
  "fire_reset a =
     (case reset_button (src a) of
        (st, events) \<Rightarrow> a\<lparr>src := st, reset_timer := None, history := history a @ events\<rparr>)"

datatype timer = Resume | Reset | Debounce

definition fire :: "timer \<Rightarrow> nat \<Rightarrow> source_page \<Rightarrow> agent \<Rightarrow> agent" where
  "fire k t page a =
     (case k of
        Resume \<Rightarrow> fire_resume t page a
      | Reset \<Rightarrow> fire_reset a
      | Debounce \<Rightarrow> fire_debounce t page a)"

text \<open>
  The browser takes what is pending in the order of the due times. \<open>earlier x y\<close>: \<open>x\<close>
  is pending and not due after \<open>y\<close>. Of two that are due at the same time the model takes
  the end of the awaits first, then the reset, then the debounce timer; the platform does
  not fix that order, and the statements below hold for times that differ.
\<close>

definition earlier :: "nat option \<Rightarrow> nat option \<Rightarrow> bool" where
  "earlier x y =
     (case x of
        None \<Rightarrow> False
      | Some dx \<Rightarrow> (case y of None \<Rightarrow> True | Some dy \<Rightarrow> dx \<le> dy))"

definition next_timer :: "agent \<Rightarrow> (timer \<times> nat) option" where
  "next_timer a =
     (if earlier (resume_timer a) (reset_timer a) \<and> earlier (resume_timer a) (debounce_timer a)
      then map_option (Pair Resume) (resume_timer a)
      else if earlier (reset_timer a) (debounce_timer a)
      then map_option (Pair Reset) (reset_timer a)
      else map_option (Pair Debounce) (debounce_timer a))"

definition pending_weight :: "agent \<Rightarrow> nat" where
  "pending_weight a =
     (if debounce_timer a = None then 0 else 4) + (if resume_timer a = None then 0 else 2)
       + (if reset_timer a = None then 0 else 1)"

text \<open>The agent at time \<open>t\<close>: all that is due up to \<open>t\<close> has happened, in order.\<close>

function run_until :: "nat \<Rightarrow> source_page \<Rightarrow> agent \<Rightarrow> agent" where
  "run_until t page a =
     (case next_timer a of
        None \<Rightarrow> a
      | Some (k, due) \<Rightarrow> if due \<le> t then run_until t page (fire k due page a) else a)"
  by pat_completeness auto
termination
proof (relation "measure (\<lambda>(t, page, a). pending_weight a)", goal_cases)
  case 1
  show ?case by simp
next
  case (2 t page a x k due)
  then have n: "next_timer a = Some (k, due)" by simp
  have "pending_weight (fire k due page a) < pending_weight a"
  proof (cases k)
    case Resume
    with n have "resume_timer a \<noteq> None"
      by (auto simp: next_timer_def split: if_splits)
    then show ?thesis
      by (auto simp: Resume fire_def fire_resume_def pending_weight_def split: prod.splits)
  next
    case Reset
    with n have "reset_timer a \<noteq> None"
      by (auto simp: next_timer_def split: if_splits)
    then show ?thesis
      by (auto simp: Reset fire_def fire_reset_def pending_weight_def split: prod.splits)
  next
    case Debounce
    with n have "debounce_timer a \<noteq> None"
      by (auto simp: next_timer_def split: if_splits)
    then show ?thesis
      by (auto simp: Debounce fire_def fire_debounce_def pending_weight_def
          split: prod.splits option.splits)
  qed
  then show ?case by simp
qed

declare run_until.simps [simp del]

subsection \<open>An example run\<close>

text \<open>
  A page on which the extraction and the clipboard write work and the new tab is blocked,
  the awaits taking 100 ms; the idle agent; and the agent at the times 350 (the handler is
  in its awaits) and 3200 (the error is shown) after a click at time 0.
\<close>

definition blocked_page :: source_page where
  "blocked_page = \<lparr>extracted = Inr (js ''1. e4''), clipboard_writable = True,
                    tab_opens = False, work_ms = 100\<rparr>"

definition idle_agent :: agent where
  "idle_agent =
     \<lparr>src = \<lparr>isProcessing = False, sendButton = True, button = ''idle'', pointerEvents = True,
             notificationCounter = 0\<rparr>,
      notificationId = 0, debounce_timer = None, resume_timer = None, reset_timer = None,
      history = []\<rparr>"

definition first_run :: agent where
  "first_run = run_until 3200 blocked_page (pointer_click 0 idle_agent)"

definition in_flight :: agent where
  "in_flight = run_until 350 blocked_page (pointer_click 0 idle_agent)"


section \<open>Predicates used in the proofs\<close>

text \<open>
  No \<^verbatim>\<open><\<close> has a \<^verbatim>\<open>>\<close> behind it: the tag pattern matches nowhere.
\<close>

fun tagfree :: "jsstring \<Rightarrow> bool" where
  "tagfree [] = True"
| "tagfree (c # cs) = ((c \<noteq> LT \<or> GT \<notin> set cs) \<and> tagfree cs)"

definition isAngle :: "jschar \<Rightarrow> bool" where
  "isAngle c = (c = LT \<or> c = GT)"

definition trimmed :: "jsstring \<Rightarrow> bool" where
  "trimmed s = (s = [] \<or> (\<not> isSpace (hd s) \<and> \<not> isSpace (last s)))"

text \<open>Three line feeds in a row occur nowhere.\<close>

definition no3 :: "jsstring \<Rightarrow> bool" where
  "no3 s = (\<not> sublist [NL, NL, NL] s)"

text \<open>One step of the loop of \<^verbatim>\<open>extractHeaders\<close>.\<close>

definition header_step :: "jsstring \<Rightarrow> headers \<Rightarrow> headers" where
  "header_step line headers =
     (case match_header line of
        Some (key, val) \<Rightarrow> set_header headers key val
      | None \<Rightarrow> headers)"

text \<open>The matches of the header pattern at all positions of a line.\<close>

fun all_matches :: "jsstring \<Rightarrow> (jsstring \<times> jsstring) list" where
  "all_matches [] = []"
| "all_matches (c # cs) =
     (case header_at (c # cs) of Some m \<Rightarrow> [m] | None \<Rightarrow> []) @ all_matches cs"


section \<open>Properties of the sanitizer\<close>

lemma set_strip_tags: "set (strip_tags s) \<subseteq> set s"
proof (induction s rule: strip_tags.induct)
  case 1
  show ?case by simp
next
  case (2 c cs)
  have "set (tl (dropWhile (\<lambda>x. x \<noteq> GT) cs)) \<subseteq> set cs"
  proof
    fix x assume "x \<in> set (tl (dropWhile (\<lambda>x. x \<noteq> GT) cs))"
    then have "x \<in> set (dropWhile (\<lambda>x. x \<noteq> GT) cs)"
      by (cases "dropWhile (\<lambda>x. x \<noteq> GT) cs") auto
    then show "x \<in> set cs" by (rule set_dropWhileD)
  qed
  with 2 show ?case by auto
qed

lemma tagfree_strip_tags: "tagfree (strip_tags s)"
proof (induction s rule: strip_tags.induct)
  case 1
  show ?case by simp
next
  case (2 c cs)
  then show ?case using set_strip_tags [of cs] by auto
qed

lemma strip_tags_id: "tagfree s \<Longrightarrow> strip_tags s = s"
  by (induction s) auto

lemma ci_eq_nonletter: "\<not> isLower p \<Longrightarrow> \<not> isUpper p \<Longrightarrow> ci_eq p c \<Longrightarrow> c = p"
  by (simp add: ci_eq_def)

lemma ci_prefix_mem:
  "ci_prefix ps s \<Longrightarrow> p \<in> set ps \<Longrightarrow> \<not> isLower p \<Longrightarrow> \<not> isUpper p \<Longrightarrow> p \<in> set s"
  by (induction ps s rule: ci_prefix.induct) (auto dest: ci_eq_nonletter)

lemma script_close_GT: "script_close s = Some n \<Longrightarrow> GT \<in> set s"
proof (induction s arbitrary: n)
  case Nil
  then show ?case by simp
next
  case (Cons c cs)
  show ?case
  proof (cases "ci_prefix (js ''</script>'') (c # cs)")
    case True
    have "GT \<in> set (js ''</script>'')" by (simp add: js_def)
    moreover have "\<not> isLower GT" "\<not> isUpper GT" by (simp_all add: isLower_def isUpper_def)
    ultimately show ?thesis using ci_prefix_mem [OF True] by blast
  next
    case False
    with Cons show ?thesis by auto
  qed
qed

lemma script_at_LT_GT:
  assumes "script_at s = Some n"
  shows "\<exists>cs. s = LT # cs \<and> GT \<in> set cs"
proof -
  from assms have p: "ci_prefix (js ''<script'') s"
    and c: "script_close (drop 7 s) \<noteq> None"
    by (auto simp: script_at_def split: if_splits)
  from p obtain c cs where s: "s = c # cs" and "ci_eq LT c"
    by (cases s) (auto simp: js_def)
  then have "c = LT" by (auto simp: ci_eq_def isLower_def isUpper_def)
  from c have "GT \<in> set (drop 7 s)" using script_close_GT by blast
  then have "GT \<in> set (drop 6 cs)" using s by simp
  then have "GT \<in> set cs" by (meson in_set_dropD)
  with s \<open>c = LT\<close> show ?thesis by simp
qed

lemma strip_scripts_id: "tagfree s \<Longrightarrow> strip_scripts s = s"
proof (induction s)
  case Nil
  show ?case by simp
next
  case (Cons c cs)
  have "script_at (c # cs) = None"
  proof (rule ccontr)
    assume "script_at (c # cs) \<noteq> None"
    then obtain n where "script_at (c # cs) = Some n" by auto
    from script_at_LT_GT [OF this] Cons.prems show False by auto
  qed
  with Cons show ?case by simp
qed

lemma tagfree_filter: "tagfree (filter isAngle s) = tagfree s"
  by (induction s) (auto simp: isAngle_def)

lemma filter_isAngle_crlf: "filter isAngle (replace_crlf s) = filter isAngle s"
  by (induction s rule: replace_crlf.induct) (auto simp: isAngle_def)

lemma filter_isAngle_cr: "filter isAngle (replace_cr s) = filter isAngle s"
  by (induction s) (auto simp: isAngle_def replace_cr_def)

lemma filter_isAngle_dropWhile_NL:
  "filter isAngle (dropWhile (\<lambda>x. x = NL) s) = filter isAngle s"
  by (induction s) (auto simp: isAngle_def)

lemma filter_isAngle_collapse: "filter isAngle (collapse_newlines s) = filter isAngle s"
proof (induction s rule: collapse_newlines.induct)
  case 1
  show ?case by simp
next
  case (2 c cs)
  have nl: "\<not> isAngle NL" by (simp add: isAngle_def)
  show ?case
  proof (cases "c = NL \<and> 2 \<le> length (takeWhile (\<lambda>x. x = NL) cs)")
    case True
    then show ?thesis using 2(1) nl by (simp add: filter_isAngle_dropWhile_NL)
  next
    case False
    then show ?thesis using 2(2) by auto
  qed
qed

lemma isAngle_not_space: "isAngle c \<Longrightarrow> \<not> isSpace c"
  by (auto simp: isAngle_def isSpace_def)

lemma filter_isAngle_dropWhile_space:
  "filter isAngle (dropWhile isSpace s) = filter isAngle s"
  by (induction s) (auto dest: isAngle_not_space)

lemma filter_isAngle_trim: "filter isAngle (trim s) = filter isAngle s"
proof -
  have "filter isAngle (trim s) = rev (filter isAngle (dropWhile isSpace (rev (dropWhile isSpace s))))"
    by (simp add: trim_def rev_filter)
  also have "\<dots> = rev (filter isAngle (rev (dropWhile isSpace s)))"
    by (simp only: filter_isAngle_dropWhile_space)
  also have "\<dots> = filter isAngle s"
    by (simp add: rev_filter filter_isAngle_dropWhile_space)
  finally show ?thesis .
qed

lemma tagfree_cong: "filter isAngle s = filter isAngle t \<Longrightarrow> tagfree s = tagfree t"
  using tagfree_filter [of s] tagfree_filter [of t] by simp

lemma CR_notin_replace_cr: "CR \<notin> set (replace_cr s)"
  by (auto simp: replace_cr_def)

lemma replace_cr_id: "CR \<notin> set s \<Longrightarrow> replace_cr s = s"
  by (induction s) (auto simp: replace_cr_def)

lemma replace_crlf_id: "CR \<notin> set s \<Longrightarrow> replace_crlf s = s"
  by (induction s rule: replace_crlf.induct) auto

lemma set_collapse: "set (collapse_newlines s) \<subseteq> set s"
proof (induction s rule: collapse_newlines.induct)
  case 1
  show ?case by simp
next
  case (2 c cs)
  show ?case
  proof (cases "c = NL \<and> 2 \<le> length (takeWhile (\<lambda>x. x = NL) cs)")
    case True
    have "set (dropWhile (\<lambda>x. x = NL) cs) \<subseteq> set cs"
      by (auto dest: set_dropWhileD)
    with True 2(1) show ?thesis by auto
  next
    case False
    with 2(2) show ?thesis by auto
  qed
qed

lemma set_trim: "set (trim s) \<subseteq> set s"
  by (auto simp: trim_def dest!: set_dropWhileD)

text \<open>The leading run of line feeds after the collapse.\<close>

lemma collapse_Nil_iff: "collapse_newlines s = [] \<longleftrightarrow> s = []"
  by (cases s) auto

lemma takeWhile_NL_collapse:
  "length (takeWhile (\<lambda>x. x = NL) (collapse_newlines s))
     = min 2 (length (takeWhile (\<lambda>x. x = NL) s))"
proof (induction s rule: collapse_newlines.induct)
  case 1
  show ?case by simp
next
  case (2 c cs)
  show ?case
  proof (cases "c = NL \<and> 2 \<le> length (takeWhile (\<lambda>x. x = NL) cs)")
    case True
    have "takeWhile (\<lambda>x. x = NL) (dropWhile (\<lambda>x. x = NL) cs) = []"
      by (metis (mono_tags, lifting) dropWhile_eq_Nil_conv hd_dropWhile takeWhile.simps(1) takeWhile_eq_Nil_iff)
    with True 2(1) show ?thesis by simp
  next
    case False
    with 2(2) show ?thesis by auto
  qed
qed

lemma no3_Nil: "no3 []"
  by (simp add: no3_def)

lemma prefix3_iff:
  "prefix [NL, NL, NL] (c # cs) \<longleftrightarrow> c = NL \<and> 2 \<le> length (takeWhile (\<lambda>x. x = NL) cs)"
proof (cases cs)
  case Nil
  then show ?thesis by simp
next
  case (Cons a as)
  then show ?thesis by (cases as) auto
qed

lemma no3_Cons:
  "no3 (c # cs) \<longleftrightarrow> \<not> (c = NL \<and> 2 \<le> length (takeWhile (\<lambda>x. x = NL) cs)) \<and> no3 cs"
  unfolding no3_def sublist_Cons_right prefix3_iff by blast

lemma no3_collapse: "no3 (collapse_newlines s)"
proof (induction s rule: collapse_newlines.induct)
  case 1
  show ?case by (simp add: no3_Nil)
next
  case (2 c cs)
  show ?case
  proof (cases "c = NL \<and> 2 \<le> length (takeWhile (\<lambda>x. x = NL) cs)")
    case True
    let ?r = "collapse_newlines (dropWhile (\<lambda>x. x = NL) cs)"
    have "takeWhile (\<lambda>x. x = NL) (dropWhile (\<lambda>x. x = NL) cs) = []"
      by (metis (mono_tags, lifting) dropWhile_eq_Nil_conv hd_dropWhile takeWhile.simps(1) takeWhile_eq_Nil_iff)
    then have z: "length (takeWhile (\<lambda>x. x = NL) ?r) = 0"
      by (simp add: takeWhile_NL_collapse)
    have r: "no3 ?r" using 2(1) True by simp
    have "no3 (NL # ?r)" using r z by (simp add: no3_Cons)
    then have "no3 (NL # NL # ?r)" using z by (simp add: no3_Cons)
    with True show ?thesis by simp
  next
    case False
    then have "no3 (collapse_newlines cs)" using 2(2) by simp
    moreover have "\<not> (c = NL \<and> 2 \<le> length (takeWhile (\<lambda>x. x = NL) (collapse_newlines cs)))"
      using False by (auto simp: takeWhile_NL_collapse)
    moreover have "collapse_newlines (c # cs) = c # collapse_newlines cs"
      using False by auto
    ultimately show ?thesis by (simp only: no3_Cons) simp
  qed
qed

lemma collapse_id: "no3 s \<Longrightarrow> collapse_newlines s = s"
  by (induction s) (auto simp: no3_Cons)

lemma sublist_dropWhile: "sublist (dropWhile P s) s"
proof -
  have "s = takeWhile P s @ dropWhile P s @ []" by simp
  then show ?thesis unfolding sublist_def by blast
qed

lemma sublist_trim: "sublist (trim s) s"
proof -
  have a: "sublist (dropWhile isSpace s) s" by (rule sublist_dropWhile)
  have "sublist (dropWhile isSpace (rev (dropWhile isSpace s))) (rev (dropWhile isSpace s))"
    by (rule sublist_dropWhile)
  then have "sublist (trim s) (dropWhile isSpace s)"
    unfolding trim_def by (metis rev_rev_ident sublist_rev)
  with a show ?thesis using sublist_order.order_trans by blast
qed

lemma no3_trim: "no3 s \<Longrightarrow> no3 (trim s)"
  unfolding no3_def using sublist_trim sublist_order.order_trans by blast

lemma trimmed_trim: "trimmed (trim s)"
proof -
  let ?a = "dropWhile isSpace s"
  let ?b = "dropWhile isSpace (rev ?a)"
  show ?thesis
  proof (cases "?b = []")
    case True
    then show ?thesis by (simp add: trimmed_def trim_def)
  next
    case False
    then have hb: "\<not> isSpace (hd ?b)" by (rule hd_dropWhile)
    have an: "?a \<noteq> []"
    proof
      assume "?a = []"
      then have "?b = []" by (simp only: rev.simps(1) dropWhile.simps(1))
      with False show False by simp
    qed
    then have ha: "\<not> isSpace (hd ?a)" by (rule hd_dropWhile)
    have "rev ?a = takeWhile isSpace (rev ?a) @ ?b" by simp
    then have "last (rev ?a) = last ?b" using False by (metis last_appendR)
    then have "last ?b = hd ?a" using an by (simp add: last_rev)
    then have "hd (rev ?b) = hd ?a" using False by (simp add: hd_rev)
    moreover have "last (rev ?b) = hd ?b" using False by (simp add: last_rev)
    ultimately show ?thesis using ha hb by (simp add: trimmed_def trim_def)
  qed
qed

lemma trim_id: "trimmed s \<Longrightarrow> trim s = s"
proof (cases s)
  case Nil
  then show ?thesis by (simp add: trim_def)
next
  case (Cons c cs)
  assume "trimmed s"
  then have h: "\<not> isSpace (hd s)" and l: "\<not> isSpace (last s)"
    using Cons by (simp_all add: trimmed_def)
  have a: "dropWhile isSpace s = s" using h Cons by simp
  have "rev s \<noteq> []" using Cons by simp
  then obtain d ds where r: "rev s = d # ds" by (cases "rev s") auto
  have "hd (rev s) = last s" using Cons by (simp add: hd_rev)
  then have "d = last s" using r by simp
  then have "dropWhile isSpace (d # ds) = d # ds" using l by simp
  then have "dropWhile isSpace (rev s) = rev s" using r by simp
  then have "rev (dropWhile isSpace (rev s)) = s" by simp
  then show ?thesis unfolding trim_def a .
qed

lemma sanitize_string_Nil: "sanitize_string [] = []"
  by (simp add: sanitize_string_def replace_cr_def trim_def)

lemma sanitizePGN_string: "sanitizePGN (JString s) = Inr (sanitize_string s)"
  by (simp add: sanitizePGN_def sanitize_string_Nil)

lemma tagfree_sanitize: "tagfree (sanitize_string s)"
proof -
  have "filter isAngle (sanitize_string s) = filter isAngle (strip_scripts (strip_tags s))"
    by (simp add: sanitize_string_def filter_isAngle_trim filter_isAngle_collapse
        filter_isAngle_cr filter_isAngle_crlf)
  also have "\<dots> = filter isAngle (strip_tags s)"
    by (simp add: strip_scripts_id tagfree_strip_tags)
  finally have "tagfree (sanitize_string s) = tagfree (strip_tags s)"
    by (rule tagfree_cong)
  then show ?thesis by (simp add: tagfree_strip_tags)
qed

lemma CR_notin_sanitize: "CR \<notin> set (sanitize_string s)"
proof -
  have "set (sanitize_string s) \<subseteq> set (replace_cr (replace_crlf (strip_scripts (strip_tags s))))"
    unfolding sanitize_string_def Let_def
    using set_trim set_collapse by (meson subset_trans)
  then show ?thesis using CR_notin_replace_cr by blast
qed

lemma no3_sanitize: "no3 (sanitize_string s)"
  by (simp add: sanitize_string_def no3_trim no3_collapse)

lemma trimmed_sanitize: "trimmed (sanitize_string s)"
  by (simp add: sanitize_string_def trimmed_trim)

lemma sanitize_string_fixed:
  assumes "tagfree s" "CR \<notin> set s" "no3 s" "trimmed s"
  shows "sanitize_string s = s"
  using assms
  by (simp add: sanitize_string_def strip_tags_id strip_scripts_id replace_crlf_id
      replace_cr_id collapse_id trim_id)

lemma sanitize_string_idem: "sanitize_string (sanitize_string s) = sanitize_string s"
  by (rule sanitize_string_fixed)
     (rule tagfree_sanitize CR_notin_sanitize no3_sanitize trimmed_sanitize)+

text \<open>
  Claim C1. For every input string \<open>x\<close>, \<^verbatim>\<open>sanitizePGN\<close> is idempotent:
  \<^verbatim>\<open>sanitizePGN(sanitizePGN(x))\<close> equals \<^verbatim>\<open>sanitizePGN(x)\<close>. The call returns a
  string \<open>y\<close>, and sanitizing \<open>y\<close> returns \<open>y\<close> again.
\<close>

theorem sanitizePGN_idempotent:
  "\<exists>y. sanitizePGN (JString x) = Inr y \<and> sanitizePGN (JString y) = Inr y"
  by (simp add: sanitizePGN_string sanitize_string_idem)

text \<open>
  Claim C1 at a text with tags, an unclosed \<^verbatim>\<open><\<close>, mixed line endings and outer
  white space.
\<close>

theorem sanitizePGN_idempotent_witness:
  "sanitizePGN (JString (js '' <b>a</b>'' @ [CR, NL, NL, CR, NL] @ js ''b<i '')) = Inr (js ''a'' @ [NL, NL] @ js ''b<i'')
   \<and> sanitizePGN (JString (js ''a'' @ [NL, NL] @ js ''b<i'')) = Inr (js ''a'' @ [NL, NL] @ js ''b<i'')"
proof -
  have e: "sanitizePGN (JString (js '' <b>a</b>'' @ [CR, NL, NL, CR, NL] @ js ''b<i ''))
      = Inr (js ''a'' @ [NL, NL] @ js ''b<i'')"
    by (simp add: sanitizePGN_def sanitize_string_def js_def script_at_def ci_eq_def
        isLower_def isUpper_def replace_cr_def trim_def isSpace_def)
  from sanitizePGN_idempotent [of "js '' <b>a</b>'' @ [CR, NL, NL, CR, NL] @ js ''b<i ''"]
  show ?thesis unfolding e by simp
qed

text \<open>
  Claim C10. \<^verbatim>\<open>sanitizePGN\<close> never raises, whatever value it is given, and for every
  input that is not a string (\<^verbatim>\<open>null\<close>, \<^verbatim>\<open>undefined\<close>, a number, an object, ...)
  it returns the empty string: no string method is applied to a non-string value.
\<close>

theorem sanitizePGN_non_string:
  "(\<forall>e. sanitizePGN v \<noteq> Inl e) \<and> (typeof v \<noteq> ''string'' \<longrightarrow> sanitizePGN v = Inr [])"
  by (cases v) (simp_all add: sanitizePGN_def)

text \<open>Claim C10 at \<^verbatim>\<open>null\<close>, \<^verbatim>\<open>undefined\<close> and the number 5.\<close>

theorem sanitizePGN_non_string_witness:
  "typeof JNull \<noteq> ''string'' \<and> sanitizePGN JNull = Inr []
   \<and> typeof JUndefined \<noteq> ''string'' \<and> sanitizePGN JUndefined = Inr []
   \<and> typeof (JNumber 5) \<noteq> ''string'' \<and> sanitizePGN (JNumber 5) = Inr []"
  using sanitizePGN_non_string [of JNull] sanitizePGN_non_string [of JUndefined]
    sanitizePGN_non_string [of "JNumber 5"]
  by simp

lemma tagfree_plain: "LT \<notin> set s \<Longrightarrow> tagfree s"
  by (induction s) auto

lemma replace_crlf_plain_append: "CR \<notin> set a \<Longrightarrow> replace_crlf (a @ t) = a @ replace_crlf t"
proof (induction a)
  case Nil
  show ?case by simp
next
  case (Cons x a)
  then have x: "x \<noteq> CR" by auto
  have "replace_crlf (x # (a @ t)) = x # replace_crlf (a @ t)"
    using x by (cases "a @ t") simp_all
  with Cons show ?case by simp
qed

lemma collapse_plain_append:
  "NL \<notin> set a \<Longrightarrow> collapse_newlines (a @ t) = a @ collapse_newlines t"
  by (induction a) auto

lemma collapse_plain: "NL \<notin> set a \<Longrightarrow> collapse_newlines a = a"
  using collapse_plain_append [of a "[]"] by simp

lemma collapse_run:
  assumes "NL \<notin> set b"
  shows "collapse_newlines (replicate n NL @ b) = replicate (min n 2) NL @ b"
proof -
  have tb: "takeWhile (\<lambda>x. x = NL) b = []" using assms by (cases b) auto
  have db: "dropWhile (\<lambda>x. x = NL) b = b" using assms by (cases b) auto
  have tw: "takeWhile (\<lambda>x. x = NL) (replicate k NL @ b) = replicate k NL" for k
    by (induction k) (simp_all add: tb)
  have dw: "dropWhile (\<lambda>x. x = NL) (replicate k NL @ b) = b" for k
    by (induction k) (simp_all add: db)
  consider "n = 0" | "n = 1" | "n = 2" | k where "n = Suc (Suc (Suc k))"
    by (metis One_nat_def Suc_1 not0_implies_Suc)
  then show ?thesis
  proof cases
    case 1
    then show ?thesis using assms by (simp add: collapse_plain)
  next
    case 2
    then show ?thesis using assms tw [of 0] by (simp add: collapse_plain)
  next
    case 3
    have "collapse_newlines (NL # NL # b) = NL # NL # b"
      using assms tw [of 0] tw [of 1] by (simp add: collapse_plain)
    with 3 show ?thesis by (simp add: numeral_2_eq_2)
  next
    case (4 k)
    have "collapse_newlines (NL # (replicate (Suc (Suc k)) NL @ b)) = NL # NL # collapse_newlines b"
      using tw [of "Suc (Suc k)"] dw [of "Suc (Suc k)"]
      by (simp only: collapse_newlines.simps) simp
    with 4 show ?thesis using assms by (simp add: collapse_plain numeral_2_eq_2)
  qed
qed

lemma sanitize_string_blocks:
  assumes plain: "\<forall>c \<in> set (a @ b). c \<noteq> LT \<and> c \<noteq> GT \<and> c \<noteq> CR \<and> c \<noteq> NL"
    and ne: "a \<noteq> []" "b \<noteq> []"
    and ends: "\<not> isSpace (hd a)" "\<not> isSpace (last b)"
  shows "sanitize_string (a @ replicate n NL @ b) = a @ replicate (min n 2) NL @ b"
proof -
  let ?s = "a @ replicate n NL @ b"
  have lt: "LT \<notin> set ?s" and cr: "CR \<notin> set ?s" using plain by auto
  have nla: "NL \<notin> set a" and nlb: "NL \<notin> set b" using plain by auto
  have 1: "strip_tags ?s = ?s" using lt by (intro strip_tags_id tagfree_plain)
  have 2: "strip_scripts ?s = ?s" using lt by (intro strip_scripts_id tagfree_plain)
  have 3: "replace_crlf ?s = ?s" using cr by (rule replace_crlf_id)
  have 4: "replace_cr ?s = ?s" using cr by (rule replace_cr_id)
  have 5: "collapse_newlines ?s = a @ replicate (min n 2) NL @ b"
    using nla nlb by (simp add: collapse_plain_append collapse_run)
  have "trimmed (a @ replicate (min n 2) NL @ b)"
    using ne ends by (simp add: trimmed_def)
  then have 6: "trim (a @ replicate (min n 2) NL @ b) = a @ replicate (min n 2) NL @ b"
    by (rule trim_id)
  show ?thesis
    unfolding sanitize_string_def Let_def 1 2 3 4 5 6 ..
qed

lemma split_nl_Nil [simp]: "split_nl [] = [[]]"
  by (simp add: split_nl.simps)

lemma split_nl_NL [simp]: "split_nl (NL # cs) = [] # split_nl cs"
  by (simp add: split_nl.simps [of "NL # cs"])

lemma split_nl_not_Nil [simp]: "split_nl s \<noteq> []"
  by (simp add: split_nl.simps [of s])

lemma split_nl_other:
  "c \<noteq> NL \<Longrightarrow> split_nl (c # cs) = (c # hd (split_nl cs)) # tl (split_nl cs)"
  by (simp add: split_nl.simps [of "c # cs"] split_nl.simps [of cs])

lemma split_nl_Cons:
  "split_nl (c # cs) =
     (if c = NL then [] # split_nl cs else (c # hd (split_nl cs)) # tl (split_nl cs))"
  by (simp add: split_nl_other)

text \<open>
  Claim C5. \<^verbatim>\<open>sanitizePGN\<close> is to collapse every run of three or more blank lines to
  exactly two blank lines; the comment in the code says \<^verbatim>\<open>Remove excessive blank lines
  (more than 2)\<close>. The code at \<^verbatim>\<open>a\n\n\n\nb\<close>, which has three blank lines between
  \<^verbatim>\<open>a\<close> and \<^verbatim>\<open>b\<close>: the result \<^verbatim>\<open>a\n\nb\<close> has one blank line, not two. And at
  \<^verbatim>\<open>a\n\n\nb\<close>, which has two blank lines, not more: the result is again \<^verbatim>\<open>a\n\nb\<close>,
  with one blank line.
\<close>

theorem sanitizePGN_blank_lines:
  "split_nl (js ''a'' @ [NL, NL, NL, NL] @ js ''b'') = [js ''a'', [], [], [], js ''b'']
   \<and> sanitizePGN (JString (js ''a'' @ [NL, NL, NL, NL] @ js ''b'')) = Inr (js ''a'' @ [NL, NL] @ js ''b'')
   \<and> split_nl (js ''a'' @ [NL, NL, NL] @ js ''b'') = [js ''a'', [], [], js ''b'']
   \<and> sanitizePGN (JString (js ''a'' @ [NL, NL, NL] @ js ''b'')) = Inr (js ''a'' @ [NL, NL] @ js ''b'')
   \<and> split_nl (js ''a'' @ [NL, NL] @ js ''b'') = [js ''a'', [], js ''b'']"
proof -
  have p: "\<forall>c \<in> set (js ''a'' @ js ''b''). c \<noteq> LT \<and> c \<noteq> GT \<and> c \<noteq> CR \<and> c \<noteq> NL"
    "js ''a'' \<noteq> []" "js ''b'' \<noteq> []" "\<not> isSpace (hd (js ''a''))" "\<not> isSpace (last (js ''b''))"
    by (simp_all add: js_def isSpace_def)
  have r: "replicate 4 NL = [NL, NL, NL, NL]" "replicate (min 4 2) NL = [NL, NL]"
    "replicate 3 NL = [NL, NL, NL]" "replicate (min 3 2) NL = [NL, NL]"
    by (simp_all add: numeral_eq_Suc)
  have a: "sanitize_string (js ''a'' @ [NL, NL, NL, NL] @ js ''b'') = js ''a'' @ [NL, NL] @ js ''b''"
    using sanitize_string_blocks [OF p, of 4] unfolding r .
  have b: "sanitize_string (js ''a'' @ [NL, NL, NL] @ js ''b'') = js ''a'' @ [NL, NL] @ js ''b''"
    using sanitize_string_blocks [OF p, of 3] unfolding r .
  show ?thesis
    by (simp only: sanitizePGN_string a b) (simp add: js_def split_nl_Cons)
qed

text \<open>
  Claim C5 at \<^verbatim>\<open>a\n\n\n\nb\<close> once more: the lines of what \<^verbatim>\<open>sanitizePGN\<close> returns.
\<close>

theorem sanitizePGN_blank_lines_witness:
  "\<exists>out. sanitizePGN (JString (js ''a'' @ [NL, NL, NL, NL] @ js ''b'')) = Inr out
      \<and> split_nl out = [js ''a'', [], js ''b'']"
  using sanitizePGN_blank_lines by simp

lemma sanitize_string_endings:
  assumes plain: "\<forall>c \<in> set (a @ b). c \<noteq> LT \<and> c \<noteq> GT \<and> c \<noteq> CR \<and> c \<noteq> NL"
    and ne: "a \<noteq> []" "b \<noteq> []"
    and ends: "\<not> isSpace (hd a)" "\<not> isSpace (last b)"
  shows "sanitize_string (a @ [CR, NL] @ b) = a @ [NL] @ b"
    and "sanitize_string (a @ [CR] @ b) = a @ [NL] @ b"
proof -
  have cra: "CR \<notin> set a" and crb: "CR \<notin> set b" using plain by auto
  have nla: "NL \<notin> set a" and nlb: "NL \<notin> set b" using plain by auto
  have lt1: "LT \<notin> set (a @ [CR, NL] @ b)" and lt2: "LT \<notin> set (a @ [CR] @ b)"
    using plain by auto
  have t1: "strip_tags (a @ [CR, NL] @ b) = a @ [CR, NL] @ b"
    using lt1 by (intro strip_tags_id tagfree_plain)
  have s1: "strip_scripts (a @ [CR, NL] @ b) = a @ [CR, NL] @ b"
    using lt1 by (intro strip_scripts_id tagfree_plain)
  have t2: "strip_tags (a @ [CR] @ b) = a @ [CR] @ b"
    using lt2 by (intro strip_tags_id tagfree_plain)
  have s2: "strip_scripts (a @ [CR] @ b) = a @ [CR] @ b"
    using lt2 by (intro strip_scripts_id tagfree_plain)
  have rb: "replace_crlf b = b" using crb by (rule replace_crlf_id)
  have c1: "replace_crlf (a @ [CR, NL] @ b) = a @ [NL] @ b"
    using cra rb by (simp add: replace_crlf_plain_append)
  obtain x xs where b: "b = x # xs" using ne(2) by (cases b) auto
  then have "x \<noteq> NL" using nlb by auto
  then have "replace_crlf (CR # b) = CR # b" using b rb by simp
  then have c2: "replace_crlf (a @ [CR] @ b) = a @ [CR] @ b"
    using cra by (simp add: replace_crlf_plain_append)
  have r1: "replace_cr (a @ [NL] @ b) = a @ [NL] @ b"
    using cra crb by (intro replace_cr_id) simp
  have r2: "replace_cr (a @ [CR] @ b) = a @ [NL] @ b"
    using replace_cr_id [OF cra] replace_cr_id [OF crb] by (simp add: replace_cr_def)
  have k: "collapse_newlines (a @ [NL] @ b) = a @ [NL] @ b"
    using nla nlb collapse_run [of b 1] by (simp add: collapse_plain_append)
  have "trimmed (a @ [NL] @ b)" using ne ends by (simp add: trimmed_def)
  then have tr: "trim (a @ [NL] @ b) = a @ [NL] @ b" by (rule trim_id)
  show "sanitize_string (a @ [CR, NL] @ b) = a @ [NL] @ b"
    unfolding sanitize_string_def Let_def t1 s1 c1 r1 k tr ..
  show "sanitize_string (a @ [CR] @ b) = a @ [NL] @ b"
    unfolding sanitize_string_def Let_def t2 s2 c2 r2 k tr ..
qed

text \<open>
  The other two parts of what \<^verbatim>\<open>sanitizePGN\<close> is to do hold for every input: the
  result has no carriage return and neither starts nor ends with white space. Line feeds
  never come three in a row; between two blocks of plain text a run of \<open>n\<close> of them
  becomes \<open>min n 2\<close>, and a \<^verbatim>\<open>\r\n\<close> or a lone \<^verbatim>\<open>\r\<close> becomes \<^verbatim>\<open>\n\<close>.
\<close>

lemma sanitizePGN_newlines:
  "(\<exists>out. sanitizePGN (JString s) = Inr out
      \<and> CR \<notin> set out
      \<and> \<not> sublist [NL, NL, NL] out
      \<and> (out = [] \<or> (\<not> isSpace (hd out) \<and> \<not> isSpace (last out))))
   \<and> ((\<forall>c \<in> set (a @ b). c \<noteq> LT \<and> c \<noteq> GT \<and> c \<noteq> CR \<and> c \<noteq> NL)
        \<and> a \<noteq> [] \<and> b \<noteq> [] \<and> \<not> isSpace (hd a) \<and> \<not> isSpace (last b)
      \<longrightarrow> sanitizePGN (JString (a @ replicate n NL @ b)) = Inr (a @ replicate (min n 2) NL @ b)
        \<and> sanitizePGN (JString (a @ [CR, NL] @ b)) = Inr (a @ [NL] @ b)
        \<and> sanitizePGN (JString (a @ [CR] @ b)) = Inr (a @ [NL] @ b))"
proof (intro conjI impI)
  show "\<exists>out. sanitizePGN (JString s) = Inr out
      \<and> CR \<notin> set out
      \<and> \<not> sublist [NL, NL, NL] out
      \<and> (out = [] \<or> (\<not> isSpace (hd out) \<and> \<not> isSpace (last out)))"
    using CR_notin_sanitize [of s] no3_sanitize [of s] trimmed_sanitize [of s]
    by (simp add: sanitizePGN_string no3_def trimmed_def)
next
  assume h: "(\<forall>c \<in> set (a @ b). c \<noteq> LT \<and> c \<noteq> GT \<and> c \<noteq> CR \<and> c \<noteq> NL)
        \<and> a \<noteq> [] \<and> b \<noteq> [] \<and> \<not> isSpace (hd a) \<and> \<not> isSpace (last b)"
  then have p: "\<forall>c \<in> set (a @ b). c \<noteq> LT \<and> c \<noteq> GT \<and> c \<noteq> CR \<and> c \<noteq> NL"
    and ne: "a \<noteq> []" "b \<noteq> []"
    and e: "\<not> isSpace (hd a)" "\<not> isSpace (last b)"
    by blast+
  show "sanitizePGN (JString (a @ replicate n NL @ b)) = Inr (a @ replicate (min n 2) NL @ b)"
    by (simp only: sanitizePGN_string sanitize_string_blocks [OF p ne e])
  show "sanitizePGN (JString (a @ [CR, NL] @ b)) = Inr (a @ [NL] @ b)"
    by (simp only: sanitizePGN_string sanitize_string_endings [OF p ne e])
  show "sanitizePGN (JString (a @ [CR] @ b)) = Inr (a @ [NL] @ b)"
    by (simp only: sanitizePGN_string sanitize_string_endings [OF p ne e])
qed


section \<open>Properties of the validator\<close>

lemma takeWhile_stop:
  "(\<forall>x \<in> set xs. P x) \<Longrightarrow> \<not> P y \<Longrightarrow> takeWhile P (xs @ y # ys) = xs"
  by (induction xs) auto

lemma dropWhile_stop:
  "(\<forall>x \<in> set xs. P x) \<Longrightarrow> \<not> P y \<Longrightarrow> dropWhile P (xs @ y # ys) = y # ys"
  by (induction xs) auto

lemma space_not_word: "isSpace c \<Longrightarrow> \<not> isWordChar c"
  unfolding isSpace_def isWordChar_def isAlpha_def isLower_def isUpper_def isDigit_def
  by (auto simp: word_le_nat_alt)

lemma DQUOTE_not_space: "\<not> isSpace DQUOTE"
  by (simp add: isSpace_def)

lemma LBRACK_not_space: "\<not> isSpace LBRACK"
  by (simp add: isSpace_def)

lemma RBRACK_not_space: "\<not> isSpace RBRACK"
  by (simp add: isSpace_def)

lemma header_at_text:
  assumes k: "k \<noteq> []" "\<forall>c \<in> set k. isWordChar c"
    and ws: "ws \<noteq> []" "\<forall>c \<in> set ws. isSpace c"
    and v: "v \<noteq> []" "DQUOTE \<notin> set v"
  shows "header_at (header_text k ws v @ post) = Some (k, v)"
proof -
  obtain w ws' where w: "ws = w # ws'" using ws(1) by (cases ws) auto
  let ?r3 = "DQUOTE # RBRACK # post"
  let ?r2 = "DQUOTE # v @ ?r3"
  have nw: "\<not> isWordChar w" using ws(2) w by (auto dest: space_not_word)
  have a: "takeWhile isWordChar (k @ w # ws' @ ?r2) = k"
    "dropWhile isWordChar (k @ w # ws' @ ?r2) = w # ws' @ ?r2"
    using k(2) nw by (rule takeWhile_stop, rule dropWhile_stop)
  have b: "takeWhile isSpace (ws @ DQUOTE # v @ ?r3) = ws"
    "dropWhile isSpace (ws @ DQUOTE # v @ ?r3) = ?r2"
    using ws(2) DQUOTE_not_space by (rule takeWhile_stop, rule dropWhile_stop)
  have nq: "\<forall>x \<in> set v. x \<noteq> DQUOTE" using v(2) by auto
  have nn: "\<not> DQUOTE \<noteq> DQUOTE" by simp
  have c: "takeWhile (\<lambda>x. x \<noteq> DQUOTE) (v @ DQUOTE # RBRACK # post) = v"
    "dropWhile (\<lambda>x. x \<noteq> DQUOTE) (v @ DQUOTE # RBRACK # post) = ?r3"
    using nq nn by (rule takeWhile_stop, rule dropWhile_stop)
  have "header_text k ws v @ post = LBRACK # k @ w # ws' @ ?r2"
    by (simp add: header_text_def w)
  then show ?thesis
    using k(1) v(1) a b [unfolded w] c by (simp add: header_at_def Let_def)
qed

lemma header_at_not_LBRACK: "c \<noteq> LBRACK \<Longrightarrow> header_at (c # cs) = None"
  by (simp add: header_at_def Let_def)

lemma match_header_skip: "LBRACK \<notin> set pre \<Longrightarrow> match_header (pre @ s) = match_header s"
  by (induction pre) (auto simp: header_at_not_LBRACK)

lemma match_header_at: "header_at s = Some m \<Longrightarrow> match_header s = Some m"
  by (cases s) (auto simp: header_at_def)

lemma header_line_match:
  assumes "header_line k v line" "k \<noteq> []" "\<forall>c \<in> set k. isWordChar c"
  shows "match_header line = Some (k, v)"
proof -
  from assms(1) obtain pre ws post where l: "line = pre @ header_text k ws v @ post"
    and pre: "LBRACK \<notin> set pre"
    and ws: "ws \<noteq> []" "\<forall>c \<in> set ws. isSpace c" and v: "v \<noteq> []" "DQUOTE \<notin> set v"
    unfolding header_line_def by blast
  have "header_at (header_text k ws v @ post) = Some (k, v)"
    using assms(2,3) ws v by (rule header_at_text)
  then have "match_header (header_text k ws v @ post) = Some (k, v)" by (rule match_header_at)
  then show ?thesis using l match_header_skip [OF pre] by simp
qed

lemma header_at_shape:
  assumes "header_at s = Some (k, v)"
  shows "\<exists>ws post. s = header_text k ws v @ post
           \<and> ws \<noteq> [] \<and> (\<forall>c \<in> set ws. isSpace c) \<and> v \<noteq> [] \<and> DQUOTE \<notin> set v"
proof -
  from assms obtain c r0 where s: "s = c # r0" by (cases s) (auto simp: header_at_def)
  define r1 where "r1 = dropWhile isWordChar r0"
  define ws where "ws = takeWhile isSpace r1"
  define r2 where "r2 = dropWhile isSpace r1"
  define r3 where "r3 = dropWhile (\<lambda>x. x \<noteq> DQUOTE) (tl r2)"
  from assms s have c: "c = LBRACK" and k: "k = takeWhile isWordChar r0"
    and wsn: "ws \<noteq> []" and q: "take 1 r2 = [DQUOTE]"
    and v: "v = takeWhile (\<lambda>x. x \<noteq> DQUOTE) (tl r2)" and vn: "v \<noteq> []"
    and e: "take 2 r3 = [DQUOTE, RBRACK]"
    by (auto simp: header_at_def Let_def r1_def ws_def r2_def r3_def split: if_splits)
  have 0: "r0 = k @ r1" by (simp add: k r1_def)
  have 1: "r1 = ws @ r2" by (simp add: ws_def r2_def)
  from q have 2: "r2 = DQUOTE # tl r2" by (cases r2) auto
  have 3: "tl r2 = v @ r3" by (simp add: v r3_def)
  from e obtain post where 4: "r3 = DQUOTE # RBRACK # post"
    by (cases r3; cases "tl r3") auto
  have "s = header_text k ws v @ post"
    using s c 0 1 2 3 4 by (simp add: header_text_def)
  moreover have "\<forall>c \<in> set ws. isSpace c" unfolding ws_def by (auto dest: set_takeWhileD)
  moreover have "DQUOTE \<notin> set v" unfolding v by (auto dest: set_takeWhileD)
  ultimately show ?thesis using wsn vn by blast
qed

lemma match_header_mentions:
  "match_header line = Some (k, v) \<Longrightarrow> mentions_header k v line"
proof (induction line)
  case Nil
  then show ?case by simp
next
  case (Cons c cs)
  show ?case
  proof (cases "header_at (c # cs)")
    case None
    with Cons.prems have "match_header cs = Some (k, v)" by simp
    from Cons.IH [OF this] obtain pre ws post where
      "cs = pre @ header_text k ws v @ post"
      "ws \<noteq> []" "\<forall>c \<in> set ws. isSpace c" "v \<noteq> []" "DQUOTE \<notin> set v"
      unfolding mentions_header_def by blast
    then have "c # cs = (c # pre) @ header_text k ws v @ post \<and> ws \<noteq> []
        \<and> (\<forall>c \<in> set ws. isSpace c) \<and> v \<noteq> [] \<and> DQUOTE \<notin> set v"
      by simp
    then show ?thesis unfolding mentions_header_def by blast
  next
    case (Some m)
    with Cons.prems have "header_at (c # cs) = Some (k, v)" by simp
    from header_at_shape [OF this] obtain ws post where
      "c # cs = [] @ header_text k ws v @ post \<and> ws \<noteq> []
        \<and> (\<forall>c \<in> set ws. isSpace c) \<and> v \<noteq> [] \<and> DQUOTE \<notin> set v"
      by auto
    then show ?thesis unfolding mentions_header_def by blast
  qed
qed

lemma header_line_mentions: "header_line k v line \<Longrightarrow> mentions_header k v line"
  unfolding header_line_def mentions_header_def by blast

lemma extractHeaders_fold: "extractHeaders pgn = fold header_step (split_nl pgn) Map.empty"
  unfolding extractHeaders_def header_step_def ..

lemma header_step_apply:
  "header_step l h k =
     (case match_header l of
        None \<Rightarrow> h k
      | Some (key, val) \<Rightarrow> if key = k \<and> key \<noteq> js ''__proto__'' then Some val else h k)"
  by (auto simp: header_step_def set_header_def split: option.splits)

lemma fold_header_snoc:
  "fold header_step (ls @ [l]) h k =
     (case match_header l of
        None \<Rightarrow> fold header_step ls h k
      | Some (key, val) \<Rightarrow>
          if key = k \<and> key \<noteq> js ''__proto__'' then Some val else fold header_step ls h k)"
proof -
  have "fold header_step (ls @ [l]) h k = header_step l (fold header_step ls h) k" by simp
  then show ?thesis by (simp only: header_step_apply [of l "fold header_step ls h" k])
qed

lemma fold_header_found:
  assumes "k \<noteq> js ''__proto__''"
    and "\<exists>line \<in> set ls. \<exists>v. match_header line = Some (k, v)"
  shows "\<exists>line \<in> set ls. \<exists>v. match_header line = Some (k, v) \<and> fold header_step ls h k = Some v"
  using assms(2)
proof (induction ls rule: rev_induct)
  case Nil
  then show ?case by simp
next
  case (snoc l ls)
  show ?case
  proof (cases "\<exists>v. match_header l = Some (k, v)")
    case True
    then obtain v where v: "match_header l = Some (k, v)" by blast
    then have "fold header_step (ls @ [l]) h k = Some v"
      using assms(1) by (simp only: fold_header_snoc) simp
    with v show ?thesis by auto
  next
    case False
    then have same: "fold header_step (ls @ [l]) h k = fold header_step ls h k"
      by (simp only: fold_header_snoc) (auto split: option.splits)
    from False snoc.prems have "\<exists>line \<in> set ls. \<exists>v. match_header line = Some (k, v)" by auto
    from snoc.IH [OF this] show ?thesis unfolding same by auto
  qed
qed

lemma fold_header_origin:
  "fold header_step ls h k = Some v \<Longrightarrow>
     h k = Some v \<or> (\<exists>line \<in> set ls. match_header line = Some (k, v))"
proof (induction ls arbitrary: v rule: rev_induct)
  case Nil
  then show ?case by simp
next
  case (snoc l ls)
  show ?case
  proof (cases "match_header l = Some (k, v)")
    case True
    then show ?thesis by auto
  next
    case False
    have "fold header_step ls h k = Some v"
      using snoc.prems False
      by (simp only: fold_header_snoc) (auto split: option.splits if_splits)
    from snoc.IH [OF this] show ?thesis by auto
  qed
qed

lemma extractHeaders_found:
  assumes "k \<noteq> js ''__proto__''"
    and "\<exists>line \<in> set (split_nl s). \<exists>v. match_header line = Some (k, v)"
  shows "\<exists>line \<in> set (split_nl s). \<exists>v. match_header line = Some (k, v) \<and> extractHeaders s k = Some v"
  unfolding extractHeaders_fold using assms by (rule fold_header_found)

lemma extractHeaders_origin:
  assumes "extractHeaders s k = Some v"
  shows "\<exists>line \<in> set (split_nl s). match_header line = Some (k, v)"
  using fold_header_origin [of "split_nl s" Map.empty k v] assms
  by (simp add: extractHeaders_fold)

text \<open>Lines of a concatenation.\<close>

lemma split_nl_append:
  "split_nl (a @ b) =
     butlast (split_nl a) @ [last (split_nl a) @ hd (split_nl b)] @ tl (split_nl b)"
proof (induction a)
  case Nil
  show ?case by simp
next
  case (Cons c a)
  obtain x xs where A: "split_nl a = x # xs" by (cases "split_nl a") auto
  show ?case
  proof (cases "c = NL")
    case True
    then show ?thesis using Cons A by simp
  next
    case False
    show ?thesis
    proof (cases xs)
      case Nil
      then show ?thesis using False Cons A by (simp add: split_nl_Cons)
    next
      case (Cons y ys)
      then show ?thesis using False Cons.IH A by (simp add: split_nl_Cons)
    qed
  qed
qed

lemma split_nl_subset: "l \<in> set (split_nl s) \<Longrightarrow> set l \<subseteq> set s"
proof (induction s arbitrary: l)
  case Nil
  then show ?case by simp
next
  case (Cons c cs)
  obtain x xs where A: "split_nl cs = x # xs" by (cases "split_nl cs") auto
  have x: "set x \<subseteq> set cs" using Cons.IH [of x] A by simp
  have xs: "\<And>y. y \<in> set xs \<Longrightarrow> set y \<subseteq> set cs" using Cons.IH A by simp
  from Cons.prems show ?case
    using x xs A by (auto simp: split_nl_Cons split: if_splits)
qed

lemma trim_decomp:
  "\<exists>p q. s = p @ trim s @ q \<and> (\<forall>c \<in> set p. isSpace c) \<and> (\<forall>c \<in> set q. isSpace c)"
proof -
  let ?d = "dropWhile isSpace s"
  let ?p = "takeWhile isSpace s"
  let ?q = "rev (takeWhile isSpace (rev ?d))"
  have "rev (takeWhile isSpace (rev ?d) @ dropWhile isSpace (rev ?d)) = rev (rev ?d)"
    by (simp only: takeWhile_dropWhile_id)
  then have "rev (dropWhile isSpace (rev ?d)) @ ?q = ?d"
    by (simp only: rev_append rev_rev_ident)
  then have "?d = trim s @ ?q" by (simp only: trim_def)
  then have "s = ?p @ trim s @ ?q" by (metis takeWhile_dropWhile_id)
  moreover have "\<forall>c \<in> set ?p. isSpace c" by (auto dest: set_takeWhileD)
  moreover have "\<forall>c \<in> set ?q. isSpace c" by (auto dest: set_takeWhileD)
  ultimately show ?thesis by blast
qed

lemma strip_left:
  "sp @ x = pre @ y # ys \<Longrightarrow> (\<forall>c \<in> set sp. isSpace c) \<Longrightarrow> \<not> isSpace y
     \<Longrightarrow> \<exists>pre'. pre = sp @ pre' \<and> x = pre' @ y # ys"
proof (induction sp arbitrary: pre)
  case Nil
  then show ?case by simp
next
  case (Cons c sp)
  show ?case
  proof (cases pre)
    case Nil
    with Cons.prems show ?thesis by auto
  next
    case (Cons a pre0)
    with Cons.prems have "sp @ x = pre0 @ y # ys" "c = a" by auto
    with Cons.IH [of pre0] Cons.prems(2,3) Cons show ?thesis by auto
  qed
qed

lemma strip_right:
  "x @ sp = a @ y # post \<Longrightarrow> (\<forall>c \<in> set sp. isSpace c) \<Longrightarrow> \<not> isSpace y
     \<Longrightarrow> \<exists>post'. post = post' @ sp \<and> x = a @ y # post'"
proof (induction sp arbitrary: post rule: rev_induct)
  case Nil
  then show ?case by simp
next
  case (snoc c sp)
  show ?case
  proof (cases post rule: rev_cases)
    case Nil
    with snoc.prems have "(x @ sp) @ [c] = a @ [y]" by simp
    then have "c = y" by (simp only: append1_eq_conv)
    with snoc.prems show ?thesis by auto
  next
    case (snoc post0 c')
    with snoc.prems(1) have "(x @ sp) @ [c] = (a @ y # post0) @ [c']" by simp
    then have e: "x @ sp = a @ y # post0" "c = c'" by (simp_all only: append1_eq_conv)
    from snoc.IH [OF e(1)] snoc.prems(2,3) obtain post' where
      "post0 = post' @ sp" "x = a @ y # post'" by auto
    with e(2) snoc show ?thesis by auto
  qed
qed

lemma header_text_ends:
  "\<exists>m. header_text k ws v = LBRACK # m \<and> header_text k ws v = (LBRACK # butlast m) @ [RBRACK]"
  by (simp add: header_text_def butlast_append)

lemma header_line_strip_left:
  assumes "header_line k v (sp @ x)" "\<forall>c \<in> set sp. isSpace c"
  shows "header_line k v x"
proof -
  from assms(1) obtain pre ws post where l: "sp @ x = pre @ header_text k ws v @ post"
    and c: "LBRACK \<notin> set pre" "ws \<noteq> []" "\<forall>c \<in> set ws. isSpace c" "v \<noteq> []" "DQUOTE \<notin> set v"
    unfolding header_line_def by blast
  obtain m where m: "header_text k ws v = LBRACK # m" using header_text_ends by blast
  from l m have "sp @ x = pre @ LBRACK # (m @ post)" by simp
  from strip_left [OF this assms(2) LBRACK_not_space]
  obtain pre' where p: "pre = sp @ pre'" "x = pre' @ LBRACK # (m @ post)" by blast
  then have "x = pre' @ header_text k ws v @ post \<and> LBRACK \<notin> set pre'" using m c(1) by simp
  with c show ?thesis unfolding header_line_def by blast
qed

lemma header_line_strip_right:
  assumes "header_line k v (x @ sp)" "\<forall>c \<in> set sp. isSpace c"
  shows "header_line k v x"
proof -
  from assms(1) obtain pre ws post where l: "x @ sp = pre @ header_text k ws v @ post"
    and c: "LBRACK \<notin> set pre" "ws \<noteq> []" "\<forall>c \<in> set ws. isSpace c" "v \<noteq> []" "DQUOTE \<notin> set v"
    unfolding header_line_def by blast
  obtain m where m: "header_text k ws v = m @ [RBRACK]" by (simp add: header_text_def)
  from l m have "x @ sp = (pre @ m) @ RBRACK # post" by simp
  from strip_right [OF this assms(2) RBRACK_not_space]
  obtain post' where "x = (pre @ m) @ RBRACK # post'" by blast
  then have "x = pre @ header_text k ws v @ post'" using m by simp
  with c show ?thesis unfolding header_line_def by blast
qed

lemma header_line_LBRACK: "header_line k v l \<Longrightarrow> LBRACK \<in> set l"
  unfolding header_line_def header_text_def by auto

lemma not_header_line_spaces: "\<forall>c \<in> set l. isSpace c \<Longrightarrow> \<not> header_line k v l"
  using header_line_LBRACK LBRACK_not_space by blast

lemma lines_of_spaces:
  "\<forall>c \<in> set p. isSpace c \<Longrightarrow> l \<in> set (split_nl p) \<Longrightarrow> \<forall>c \<in> set l. isSpace c"
  using split_nl_subset by blast

lemma header_line_drop_prefix:
  assumes sp: "\<forall>c \<in> set p. isSpace c"
    and l: "l \<in> set (split_nl (p @ t))" and h: "header_line k v l"
  shows "\<exists>l' \<in> set (split_nl t). header_line k v l'"
proof -
  let ?P = "split_nl p" and ?T = "split_nl t"
  from l have "l \<in> set (butlast ?P) \<or> l = last ?P @ hd ?T \<or> l \<in> set (tl ?T)"
    by (auto simp: split_nl_append)
  then show ?thesis
  proof (elim disjE)
    assume "l \<in> set (butlast ?P)"
    then have "l \<in> set ?P" by (rule in_set_butlastD)
    then have "\<forall>c \<in> set l. isSpace c" using sp lines_of_spaces by blast
    with h show ?thesis using not_header_line_spaces by blast
  next
    assume e: "l = last ?P @ hd ?T"
    have "last ?P \<in> set ?P" by simp
    then have "\<forall>c \<in> set (last ?P). isSpace c" using sp lines_of_spaces by blast
    with h e have "header_line k v (hd ?T)" using header_line_strip_left by blast
    moreover have "hd ?T \<in> set ?T" by simp
    ultimately show ?thesis by blast
  next
    assume "l \<in> set (tl ?T)"
    then have "l \<in> set ?T" by (meson list.set_sel(2) split_nl_not_Nil)
    with h show ?thesis by blast
  qed
qed

lemma header_line_drop_suffix:
  assumes sp: "\<forall>c \<in> set q. isSpace c"
    and l: "l \<in> set (split_nl (t @ q))" and h: "header_line k v l"
  shows "\<exists>l' \<in> set (split_nl t). header_line k v l'"
proof -
  let ?Q = "split_nl q" and ?T = "split_nl t"
  from l have "l \<in> set (butlast ?T) \<or> l = last ?T @ hd ?Q \<or> l \<in> set (tl ?Q)"
    by (auto simp: split_nl_append)
  then show ?thesis
  proof (elim disjE)
    assume "l \<in> set (butlast ?T)"
    then have "l \<in> set ?T" by (rule in_set_butlastD)
    with h show ?thesis by blast
  next
    assume e: "l = last ?T @ hd ?Q"
    have "hd ?Q \<in> set ?Q" by simp
    then have "\<forall>c \<in> set (hd ?Q). isSpace c" using sp lines_of_spaces by blast
    with h e have "header_line k v (last ?T)" using header_line_strip_right by blast
    moreover have "last ?T \<in> set ?T" by simp
    ultimately show ?thesis by blast
  next
    assume "l \<in> set (tl ?Q)"
    then have "l \<in> set ?Q" by (meson list.set_sel(2) split_nl_not_Nil)
    then have "\<forall>c \<in> set l. isSpace c" using sp lines_of_spaces by blast
    with h show ?thesis using not_header_line_spaces by blast
  qed
qed

lemma header_line_trim:
  assumes "l \<in> set (split_nl s)" "header_line k v l"
  shows "\<exists>l' \<in> set (split_nl (trim s)). header_line k v l'"
proof -
  obtain p q where s: "s = p @ trim s @ q"
    and p: "\<forall>c \<in> set p. isSpace c" and q: "\<forall>c \<in> set q. isSpace c"
    using trim_decomp by blast
  from assms(1) s have "l \<in> set (split_nl (p @ (trim s @ q)))" by simp
  from header_line_drop_prefix [OF p this assms(2)]
  obtain l1 where "l1 \<in> set (split_nl (trim s @ q))" "header_line k v l1" by blast
  from header_line_drop_suffix [OF q this] show ?thesis .
qed

lemma mentions_header_extend:
  "mentions_header k v l \<Longrightarrow> mentions_header k v (a @ l @ b)"
proof -
  assume "mentions_header k v l"
  then obtain pre ws post where "l = pre @ header_text k ws v @ post"
    and c: "ws \<noteq> []" "\<forall>c \<in> set ws. isSpace c" "v \<noteq> []" "DQUOTE \<notin> set v"
    unfolding mentions_header_def by blast
  then have "a @ l @ b = (a @ pre) @ header_text k ws v @ (post @ b)" by simp
  with c show ?thesis unfolding mentions_header_def by blast
qed

lemma line_in_longer:
  assumes "l' \<in> set (split_nl t)"
  shows "\<exists>l \<in> set (split_nl (p @ t @ q)). \<exists>a b. l = a @ l' @ b"
proof -
  let ?T = "split_nl t" and ?Q = "split_nl q" and ?P = "split_nl p"
  have "?T = butlast ?T @ [last ?T]" by simp
  with assms have "l' \<in> set (butlast ?T) \<or> l' = last ?T"
    by (metis in_set_butlast_appendI insert_iff list.simps(15) rotate1.simps(2) set_rotate1 empty_iff empty_set)
  then have "\<exists>l1 \<in> set (split_nl (t @ q)). \<exists>b. l1 = l' @ b"
  proof
    assume "l' \<in> set (butlast ?T)"
    then have "l' \<in> set (split_nl (t @ q))" by (simp add: split_nl_append)
    then show ?thesis by (metis append_Nil2)
  next
    assume "l' = last ?T"
    then have "l' @ hd ?Q \<in> set (split_nl (t @ q))" by (simp add: split_nl_append)
    then show ?thesis by blast
  qed
  then obtain l1 b where l1: "l1 \<in> set (split_nl (t @ q))" "l1 = l' @ b" by blast
  let ?U = "split_nl (t @ q)"
  have "?U = hd ?U # tl ?U" by simp
  with l1(1) have "l1 = hd ?U \<or> l1 \<in> set (tl ?U)" by (metis set_ConsD)
  then have "\<exists>l \<in> set (split_nl (p @ (t @ q))). \<exists>a. l = a @ l1"
  proof
    assume "l1 = hd ?U"
    then have "last ?P @ l1 \<in> set (split_nl (p @ (t @ q)))"
      by (simp add: split_nl_append [of p])
    then show ?thesis by blast
  next
    assume "l1 \<in> set (tl ?U)"
    then have "l1 \<in> set (split_nl (p @ (t @ q)))" by (simp add: split_nl_append [of p])
    then show ?thesis by (metis append_Nil)
  qed
  with l1(2) show ?thesis by auto
qed

lemma mentions_header_untrim:
  assumes "l' \<in> set (split_nl (trim s))" "mentions_header k v l'"
  shows "\<exists>l \<in> set (split_nl s). mentions_header k v l"
proof -
  obtain p q where s: "s = p @ trim s @ q" using trim_decomp by blast
  from line_in_longer [OF assms(1), of p q] s
  obtain l a b where "l \<in> set (split_nl s)" "l = a @ l' @ b" by auto
  with assms(2) show ?thesis using mentions_header_extend by blast
qed

lemma alpha_not_space: "isAlpha c \<Longrightarrow> \<not> isSpace c"
  unfolding isSpace_def isAlpha_def isLower_def isUpper_def
  by (auto simp: word_le_nat_alt)

lemma digit_not_space: "isDigit c \<Longrightarrow> \<not> isSpace c"
  unfolding isSpace_def isDigit_def
  by (auto simp: word_le_nat_alt)

lemma DOT_not_digit: "\<not> isDigit DOT"
  by (simp add: isDigit_def)

lemma move_at_token:
  assumes "isDigit d" "\<forall>c \<in> set ws. isSpace c" "isAlpha l"
  shows "move_at (d # DOT # ws @ l # post)"
proof -
  have a: "takeWhile isDigit (d # DOT # ws @ l # post) = [d]"
    "dropWhile isDigit (d # DOT # ws @ l # post) = DOT # ws @ l # post"
    using assms(1) DOT_not_digit by simp_all
  have b: "dropWhile isSpace (ws @ l # post) = l # post"
    using assms(2) alpha_not_space [OF assms(3)] by (rule dropWhile_stop)
  show ?thesis unfolding move_at_def Let_def a using assms(3) by (simp add: b)
qed

lemma checkForMoves_append: "checkForMoves t \<Longrightarrow> checkForMoves (pre @ t)"
  by (induction pre) auto

lemma checkForMoves_at: "move_at s \<Longrightarrow> checkForMoves s"
  by (cases s) (auto simp: move_at_def)

lemma has_move_token_trim:
  assumes "has_move_token s"
  shows "checkForMoves (trim s)"
proof -
  from assms obtain pre d ws l post where s: "s = pre @ d # DOT # ws @ l # post"
    and c: "isDigit d" "\<forall>c \<in> set ws. isSpace c" "isAlpha l"
    unfolding has_move_token_def by blast
  obtain p q where t: "s = p @ trim s @ q"
    and p: "\<forall>c \<in> set p. isSpace c" and q: "\<forall>c \<in> set q. isSpace c"
    using trim_decomp by blast
  from s t have "p @ (trim s @ q) = pre @ d # (DOT # ws @ l # post)" by simp
  from strip_left [OF this p digit_not_space [OF c(1)]]
  obtain pre' where "trim s @ q = pre' @ d # (DOT # ws @ l # post)" by blast
  then have "trim s @ q = (pre' @ d # DOT # ws) @ l # post" by simp
  from strip_right [OF this q alpha_not_space [OF c(3)]]
  obtain post' where "trim s = (pre' @ d # DOT # ws) @ l # post'" by blast
  then have e: "trim s = pre' @ (d # DOT # ws @ l # post')" by simp
  have "checkForMoves (d # DOT # ws @ l # post')"
    using c by (intro checkForMoves_at move_at_token)
  then show ?thesis unfolding e by (rule checkForMoves_append)
qed

lemma required_word:
  "k \<in> set REQUIRED_HEADERS \<Longrightarrow> k \<noteq> [] \<and> (\<forall>c \<in> set k. isWordChar c) \<and> k \<noteq> js ''__proto__''"
  by (auto simp: REQUIRED_HEADERS_def js_def isWordChar_def isAlpha_def isLower_def isUpper_def)

lemma not_header_line_Nil: "\<not> header_line k v []"
  using header_line_LBRACK [of k v "[]"] by auto

lemma header_line_extracted:
  assumes k: "k \<in> set REQUIRED_HEADERS"
    and l: "l \<in> set (split_nl pgn)" "header_line k v l"
  shows "trim pgn \<noteq> []"
    and "\<exists>v'. extractHeaders (trim pgn) k = Some v' \<and> v' \<noteq> []
           \<and> (\<exists>l' \<in> set (split_nl pgn). mentions_header k v' l')"
proof -
  from header_line_trim [OF l] obtain l1 where
    l1: "l1 \<in> set (split_nl (trim pgn))" "header_line k v l1" by blast
  show "trim pgn \<noteq> []"
  proof
    assume "trim pgn = []"
    with l1 show False using not_header_line_Nil by simp
  qed
  from required_word [OF k] have w: "k \<noteq> []" "\<forall>c \<in> set k. isWordChar c"
    and np: "k \<noteq> js ''__proto__''" by blast+
  have "match_header l1 = Some (k, v)" using l1(2) w by (rule header_line_match)
  with l1(1) have "\<exists>line \<in> set (split_nl (trim pgn)). \<exists>v. match_header line = Some (k, v)"
    by blast
  from extractHeaders_found [OF np this] obtain l2 v' where
    l2: "l2 \<in> set (split_nl (trim pgn))" "match_header l2 = Some (k, v')"
    and e: "extractHeaders (trim pgn) k = Some v'" by blast
  have m: "mentions_header k v' l2" using l2(2) by (rule match_header_mentions)
  then have "v' \<noteq> []" unfolding mentions_header_def by blast
  moreover from mentions_header_untrim [OF l2(1) m]
  have "\<exists>l' \<in> set (split_nl pgn). mentions_header k v' l'" .
  ultimately show "\<exists>v'. extractHeaders (trim pgn) k = Some v' \<and> v' \<noteq> []
           \<and> (\<exists>l' \<in> set (split_nl pgn). mentions_header k v' l')"
    using e by blast
qed

lemma all_required_no_errors:
  assumes "\<forall>k \<in> set REQUIRED_HEADERS. \<exists>line \<in> set (split_nl pgn). \<exists>v. header_line k v line"
  shows "filter (\<lambda>k. \<not> has_header (extractHeaders (trim pgn)) k) REQUIRED_HEADERS = []"
proof -
  have "has_header (extractHeaders (trim pgn)) k" if "k \<in> set REQUIRED_HEADERS" for k
  proof -
    from assms that obtain l v where "l \<in> set (split_nl pgn)" "header_line k v l" by blast
    from header_line_extracted(2) [OF that this] show ?thesis
      by (auto simp: has_header_def)
  qed
  then show ?thesis by (simp add: filter_empty_conv)
qed

lemma Event_required: "js ''Event'' \<in> set REQUIRED_HEADERS"
  by (simp add: REQUIRED_HEADERS_def)

lemma Result_required: "js ''Result'' \<in> set REQUIRED_HEADERS"
  by (simp add: REQUIRED_HEADERS_def)

lemma validatePGN_string: "s \<noteq> [] \<Longrightarrow> validatePGN (JString s) = Inr (validate_string s)"
  by (simp add: validatePGN_def)

lemma trim_Nil: "trim [] = []"
  by (simp add: trim_def)

lemma no_moves_other:
  "js ''No moves found in PGN'' \<noteq> js ''Unusual result format: '' @ r"
  "js ''No moves found in PGN'' \<noteq> js ''No Variant header found (should be '' @ x"
  "js ''No moves found in PGN'' \<noteq> js ''Variant is '' @ y"
  by (simp_all add: js_def)

text \<open>
  Claim C2. A record in which each of the six required headers (Event, Site, Date, White,
  Black, Result) has a header line \<^verbatim>\<open>[Key "Value"]\<close>, and which has a move token, is
  accepted: \<^verbatim>\<open>validatePGN\<close> returns \<^verbatim>\<open>valid = true\<close> and an empty list of errors
  (and it does not warn that moves are missing).
\<close>

theorem validatePGN_accepts:
  assumes "\<forall>k \<in> set REQUIRED_HEADERS. \<exists>line \<in> set (split_nl pgn). \<exists>v. header_line k v line"
    and "has_move_token pgn"
  shows "\<exists>r. validatePGN (JString pgn) = Inr r \<and> valid r \<and> errors r = []
           \<and> js ''No moves found in PGN'' \<notin> set (warnings r)"
proof -
  from assms(1) Event_required obtain l v where
    l: "l \<in> set (split_nl pgn)" "header_line (js ''Event'') v l" by blast
  have t: "trim pgn \<noteq> []" using header_line_extracted(1) [OF Event_required l] .
  then have "pgn \<noteq> []" using trim_Nil by auto
  then have r: "validatePGN (JString pgn) = Inr (validate_string pgn)"
    by (rule validatePGN_string)
  have e: "filter (\<lambda>k. \<not> has_header (extractHeaders (trim pgn)) k) REQUIRED_HEADERS = []"
    using assms(1) by (rule all_required_no_errors)
  have m: "checkForMoves (trim pgn)" using assms(2) by (rule has_move_token_trim)
  have "valid (validate_string pgn)" "errors (validate_string pgn) = []"
    using t e by (simp_all add: validate_string_def Let_def)
  moreover have "js ''No moves found in PGN'' \<notin> set (warnings (validate_string pgn))"
    using t m no_moves_other
    by (auto simp: validate_string_def Let_def split: option.splits)
  ultimately show ?thesis using r by simp
qed

text \<open>
  Claim C4. A record with header lines for all six required headers, whose Result header
  has the value \<open>v\<close> wherever the record mentions one, with \<open>v\<close> none of
  \<^verbatim>\<open>1-0\<close>, \<^verbatim>\<open>0-1\<close>, \<^verbatim>\<open>1/2-1/2\<close>, \<^verbatim>\<open>*\<close>: \<^verbatim>\<open>validatePGN\<close> returns
  \<^verbatim>\<open>valid = true\<close>, and its warnings contain \<^verbatim>\<open>Unusual result format: v\<close>.
\<close>

theorem validatePGN_unusual_result:
  assumes "\<forall>k \<in> set REQUIRED_HEADERS. \<exists>line \<in> set (split_nl pgn). \<exists>v. header_line k v line"
    and "\<forall>line \<in> set (split_nl pgn). \<forall>v'. mentions_header (js ''Result'') v' line \<longrightarrow> v' = v"
    and "v \<notin> set validResults"
  shows "\<exists>r. validatePGN (JString pgn) = Inr r \<and> valid r
           \<and> js ''Unusual result format: '' @ v \<in> set (warnings r)"
proof -
  from assms(1) Result_required obtain l v0 where
    l: "l \<in> set (split_nl pgn)" "header_line (js ''Result'') v0 l" by blast
  have t: "trim pgn \<noteq> []" using header_line_extracted(1) [OF Result_required l] .
  then have "pgn \<noteq> []" using trim_Nil by auto
  then have r: "validatePGN (JString pgn) = Inr (validate_string pgn)"
    by (rule validatePGN_string)
  have e: "filter (\<lambda>k. \<not> has_header (extractHeaders (trim pgn)) k) REQUIRED_HEADERS = []"
    using assms(1) by (rule all_required_no_errors)
  from header_line_extracted(2) [OF Result_required l] obtain v' l' where
    x: "extractHeaders (trim pgn) (js ''Result'') = Some v'" "v' \<noteq> []"
    and m: "l' \<in> set (split_nl pgn)" "mentions_header (js ''Result'') v' l'" by blast
  from assms(2) m have "v' = v" by blast
  with x have x': "extractHeaders (trim pgn) (js ''Result'') = Some v" "v \<noteq> []" by simp_all
  have "valid (validate_string pgn)"
    using t e by (simp add: validate_string_def Let_def)
  moreover have "js ''Unusual result format: '' @ v \<in> set (warnings (validate_string pgn))"
    using t x' assms(3) by (simp add: validate_string_def Let_def)
  ultimately show ?thesis using r by simp
qed

lemma no_mention_not_extracted:
  assumes "\<forall>line \<in> set (split_nl pgn). \<forall>v. \<not> mentions_header k v line"
  shows "extractHeaders (trim pgn) k = None"
proof (rule ccontr)
  assume "extractHeaders (trim pgn) k \<noteq> None"
  then obtain v where "extractHeaders (trim pgn) k = Some v" by auto
  from extractHeaders_origin [OF this] obtain l where
    l: "l \<in> set (split_nl (trim pgn))" "match_header l = Some (k, v)" by blast
  from mentions_header_untrim [OF l(1) match_header_mentions [OF l(2)]] assms
  show False by blast
qed

text \<open>
  Claim C3, amended. A record that is not empty after trimming and in which no line
  mentions a Result header is rejected with the error
  \<^verbatim>\<open>Missing required header: Result\<close>. A record that is empty after trimming is rejected
  too, with the single error \<^verbatim>\<open>PGN is empty or invalid type\<close> (the empty string) or
  \<^verbatim>\<open>PGN is empty\<close> (white space only).
\<close>

theorem validatePGN_missing_result:
  "(trim pgn \<noteq> [] \<and> (\<forall>line \<in> set (split_nl pgn). \<forall>v. \<not> mentions_header (js ''Result'') v line)
      \<longrightarrow> (\<exists>r. validatePGN (JString pgn) = Inr r \<and> \<not> valid r
             \<and> js ''Missing required header: Result'' \<in> set (errors r)))
   \<and> (trim pgn = []
      \<longrightarrow> (\<exists>r. validatePGN (JString pgn) = Inr r \<and> \<not> valid r
             \<and> (errors r = [js ''PGN is empty or invalid type''] \<or> errors r = [js ''PGN is empty''])))"
proof (intro conjI impI)
  assume h: "trim pgn \<noteq> [] \<and> (\<forall>line \<in> set (split_nl pgn). \<forall>v. \<not> mentions_header (js ''Result'') v line)"
  then have t: "trim pgn \<noteq> []" by blast
  then have "pgn \<noteq> []" using trim_Nil by auto
  then have r: "validatePGN (JString pgn) = Inr (validate_string pgn)"
    by (rule validatePGN_string)
  from h have "extractHeaders (trim pgn) (js ''Result'') = None"
    by (intro no_mention_not_extracted) blast
  then have n: "\<not> has_header (extractHeaders (trim pgn)) (js ''Result'')"
    by (simp add: has_header_def)
  let ?missing = "filter (\<lambda>k. \<not> has_header (extractHeaders (trim pgn)) k) REQUIRED_HEADERS"
  have in_missing: "js ''Result'' \<in> set ?missing" using n Result_required by simp
  then have "js ''Missing required header: '' @ js ''Result''
      \<in> set (map (\<lambda>k. js ''Missing required header: '' @ k) ?missing)"
    unfolding set_map by (rule imageI)
  moreover have "js ''Missing required header: '' @ js ''Result'' = js ''Missing required header: Result''"
    by (simp add: js_def)
  ultimately have a: "js ''Missing required header: Result'' \<in> set (errors (validate_string pgn))"
    using t by (simp add: validate_string_def Let_def)
  have "?missing \<noteq> []" using in_missing by (metis empty_iff empty_set)
  then have b: "\<not> valid (validate_string pgn)"
    using t by (simp add: validate_string_def Let_def)
  show "\<exists>r. validatePGN (JString pgn) = Inr r \<and> \<not> valid r
             \<and> js ''Missing required header: Result'' \<in> set (errors r)"
    using r a b by simp
next
  assume t: "trim pgn = []"
  show "\<exists>r. validatePGN (JString pgn) = Inr r \<and> \<not> valid r
             \<and> (errors r = [js ''PGN is empty or invalid type''] \<or> errors r = [js ''PGN is empty''])"
  proof (cases "pgn = []")
    case True
    then show ?thesis by (simp add: validatePGN_def)
  next
    case False
    then have "validatePGN (JString pgn) = Inr (validate_string pgn)"
      by (rule validatePGN_string)
    then show ?thesis using t by (simp add: validate_string_def)
  qed
qed

text \<open>
  Claim C3, as it is worded, at the empty string and at a string of one space: neither has
  a Result header, both are rejected, and the one error reported does not name the field.
\<close>

theorem validatePGN_missing_result_counterexample:
  "extractHeaders (trim []) (js ''Result'') = None
   \<and> validatePGN (JString []) =
       Inr \<lparr>valid = False, errors = [js ''PGN is empty or invalid type''], warnings = []\<rparr>
   \<and> \<not> sublist (js ''Result'') (js ''PGN is empty or invalid type'')
   \<and> extractHeaders (trim (js '' '')) (js ''Result'') = None
   \<and> validatePGN (JString (js '' '')) =
       Inr \<lparr>valid = False, errors = [js ''PGN is empty''], warnings = []\<rparr>
   \<and> \<not> sublist (js ''Result'') (js ''PGN is empty'')"
  by (simp add: validatePGN_def validate_string_def trim_def js_def isSpace_def
      extractHeaders_def sublist_code prefix_code)

subsection \<open>The example records\<close>

lemma split_nl_single: "NL \<notin> set a \<Longrightarrow> split_nl a = [a]"
  by (induction a) (auto simp: split_nl_Cons)

lemma split_nl_line: "NL \<notin> set a \<Longrightarrow> split_nl (a @ NL # rest) = a # split_nl rest"
  using split_nl_append [of a "NL # rest"] by (simp add: split_nl_single)

lemma header_line_exact:
  "ws \<noteq> [] \<Longrightarrow> \<forall>c \<in> set ws. isSpace c \<Longrightarrow> v \<noteq> [] \<Longrightarrow> DQUOTE \<notin> set v
     \<Longrightarrow> header_line k v (header_text k ws v)"
  unfolding header_line_def
  by (rule exI [of _ "[]"], rule exI [of _ ws], rule exI [of _ "[]"]) simp

lemma has_move_token_append: "has_move_token t \<Longrightarrow> has_move_token (a @ t)"
proof -
  assume "has_move_token t"
  then obtain pre d ws l post where "t = pre @ d # DOT # ws @ l # post"
    and c: "isDigit d" "\<forall>c \<in> set ws. isSpace c" "isAlpha l"
    unfolding has_move_token_def by blast
  then have "a @ t = (a @ pre) @ d # DOT # ws @ l # post" by simp
  with c show ?thesis unfolding has_move_token_def by blast
qed

lemma has_move_token_Cons: "has_move_token t \<Longrightarrow> has_move_token (c # t)"
  using has_move_token_append [of t "[c]"] by simp

lemma has_move_token_e4: "has_move_token (js ''1. e4'')"
proof -
  have "js ''1. e4'' = [] @ 0x31 # DOT # [0x20] @ 0x65 # [0x34]" by (simp add: js_def)
  moreover have "isDigit 0x31" "\<forall>c \<in> set [0x20]. isSpace c" "isAlpha 0x65"
    by (simp_all add: isDigit_def isSpace_def isAlpha_def isLower_def)
  ultimately show ?thesis unfolding has_move_token_def by blast
qed

lemma mentions_all_matches:
  assumes "mentions_header k v line" "k \<noteq> []" "\<forall>c \<in> set k. isWordChar c"
  shows "(k, v) \<in> set (all_matches line)"
proof -
  from assms(1) obtain pre ws post where l: "line = pre @ header_text k ws v @ post"
    and c: "ws \<noteq> []" "\<forall>c \<in> set ws. isSpace c" "v \<noteq> []" "DQUOTE \<notin> set v"
    unfolding mentions_header_def by blast
  have h: "header_at (header_text k ws v @ post) = Some (k, v)"
    using assms(2,3) c by (rule header_at_text)
  obtain m where m: "header_text k ws v @ post = LBRACK # m" by (simp add: header_text_def)
  have "(k, v) \<in> set (all_matches (LBRACK # m))" using h m by simp
  then have "(k, v) \<in> set (all_matches (pre @ LBRACK # m))" by (induction pre) auto
  then show ?thesis using l m by simp
qed

lemma sample_header_facts:
  "NL \<notin> set (header_text (js ''Event'') (js '' '') (js ''x''))"
  "NL \<notin> set (header_text (js ''Site'') (js '' '') (js ''x''))"
  "NL \<notin> set (header_text (js ''Date'') (js '' '') (js ''x''))"
  "NL \<notin> set (header_text (js ''White'') (js '' '') (js ''x''))"
  "NL \<notin> set (header_text (js ''Black'') (js '' '') (js ''x''))"
  "NL \<notin> set (header_text (js ''Result'') (js '' '') (js ''1-0''))"
  "NL \<notin> set (header_text (js ''Result'') (js '' '') (js ''??''))"
  "NL \<notin> set (js ''1. e4'')"
  by (simp_all add: header_text_def js_def)

lemma split_sample_record:
  "split_nl sample_record =
     [header_text (js ''Event'') (js '' '') (js ''x''),
      header_text (js ''Site'') (js '' '') (js ''x''),
      header_text (js ''Date'') (js '' '') (js ''x''),
      header_text (js ''White'') (js '' '') (js ''x''),
      header_text (js ''Black'') (js '' '') (js ''x''),
      header_text (js ''Result'') (js '' '') (js ''1-0''),
      [], js ''1. e4'']"
  unfolding sample_record_def
  by (simp only: split_nl_line split_nl_single split_nl_NL sample_header_facts not_False_eq_True)

lemma split_sample_unusual:
  "split_nl sample_unusual =
     [header_text (js ''Event'') (js '' '') (js ''x''),
      header_text (js ''Site'') (js '' '') (js ''x''),
      header_text (js ''Date'') (js '' '') (js ''x''),
      header_text (js ''White'') (js '' '') (js ''x''),
      header_text (js ''Black'') (js '' '') (js ''x''),
      header_text (js ''Result'') (js '' '') (js ''??''),
      [], js ''1. e4'']"
  unfolding sample_unusual_def
  by (simp only: split_nl_line split_nl_single split_nl_NL sample_header_facts not_False_eq_True)

lemma split_sample_no_result:
  "split_nl sample_no_result =
     [header_text (js ''Event'') (js '' '') (js ''x''),
      header_text (js ''Site'') (js '' '') (js ''x''),
      header_text (js ''Date'') (js '' '') (js ''x''),
      header_text (js ''White'') (js '' '') (js ''x''),
      header_text (js ''Black'') (js '' '') (js ''x''),
      [], js ''1. e4'']"
  unfolding sample_no_result_def
  by (simp only: split_nl_line split_nl_single split_nl_NL sample_header_facts not_False_eq_True)

lemma sample_value_facts:
  "js '' '' \<noteq> []" "\<forall>c \<in> set (js '' ''). isSpace c"
  "js ''x'' \<noteq> []" "DQUOTE \<notin> set (js ''x'')"
  "js ''1-0'' \<noteq> []" "DQUOTE \<notin> set (js ''1-0'')"
  "js ''??'' \<noteq> []" "DQUOTE \<notin> set (js ''??'')"
  by (simp_all add: js_def isSpace_def)

lemma sample_header_lines:
  "header_line (js ''Event'') (js ''x'') (header_text (js ''Event'') (js '' '') (js ''x''))"
  "header_line (js ''Site'') (js ''x'') (header_text (js ''Site'') (js '' '') (js ''x''))"
  "header_line (js ''Date'') (js ''x'') (header_text (js ''Date'') (js '' '') (js ''x''))"
  "header_line (js ''White'') (js ''x'') (header_text (js ''White'') (js '' '') (js ''x''))"
  "header_line (js ''Black'') (js ''x'') (header_text (js ''Black'') (js '' '') (js ''x''))"
  "header_line (js ''Result'') (js ''1-0'') (header_text (js ''Result'') (js '' '') (js ''1-0''))"
  "header_line (js ''Result'') (js ''??'') (header_text (js ''Result'') (js '' '') (js ''??''))"
  by (intro header_line_exact sample_value_facts)+

lemma sample_all_matches:
  "all_matches (header_text (js ''Event'') (js '' '') (js ''x'')) = [(js ''Event'', js ''x'')]"
  "all_matches (header_text (js ''Site'') (js '' '') (js ''x'')) = [(js ''Site'', js ''x'')]"
  "all_matches (header_text (js ''Date'') (js '' '') (js ''x'')) = [(js ''Date'', js ''x'')]"
  "all_matches (header_text (js ''White'') (js '' '') (js ''x'')) = [(js ''White'', js ''x'')]"
  "all_matches (header_text (js ''Black'') (js '' '') (js ''x'')) = [(js ''Black'', js ''x'')]"
  "all_matches (header_text (js ''Result'') (js '' '') (js ''??'')) = [(js ''Result'', js ''??'')]"
  "all_matches [] = []"
  "all_matches (js ''1. e4'') = []"
  by (simp_all add: header_text_def js_def header_at_def Let_def isWordChar_def isAlpha_def
      isLower_def isUpper_def isDigit_def isSpace_def)

lemma Result_word: "js ''Result'' \<noteq> [] \<and> (\<forall>c \<in> set (js ''Result''). isWordChar c)"
  using required_word [OF Result_required] by blast

text \<open>Claim C2 at the example record.\<close>

theorem validatePGN_accepts_witness:
  "split_nl sample_record =
     [header_text (js ''Event'') (js '' '') (js ''x''),
      header_text (js ''Site'') (js '' '') (js ''x''),
      header_text (js ''Date'') (js '' '') (js ''x''),
      header_text (js ''White'') (js '' '') (js ''x''),
      header_text (js ''Black'') (js '' '') (js ''x''),
      header_text (js ''Result'') (js '' '') (js ''1-0''),
      [], js ''1. e4'']
   \<and> header_line (js ''Event'') (js ''x'') (header_text (js ''Event'') (js '' '') (js ''x''))
   \<and> header_line (js ''Site'') (js ''x'') (header_text (js ''Site'') (js '' '') (js ''x''))
   \<and> header_line (js ''Date'') (js ''x'') (header_text (js ''Date'') (js '' '') (js ''x''))
   \<and> header_line (js ''White'') (js ''x'') (header_text (js ''White'') (js '' '') (js ''x''))
   \<and> header_line (js ''Black'') (js ''x'') (header_text (js ''Black'') (js '' '') (js ''x''))
   \<and> header_line (js ''Result'') (js ''1-0'') (header_text (js ''Result'') (js '' '') (js ''1-0''))
   \<and> has_move_token sample_record
   \<and> (\<exists>r. validatePGN (JString sample_record) = Inr r \<and> valid r \<and> errors r = []
         \<and> js ''No moves found in PGN'' \<notin> set (warnings r))"
proof -
  have h: "\<forall>k \<in> set REQUIRED_HEADERS. \<exists>line \<in> set (split_nl sample_record). \<exists>v. header_line k v line"
    unfolding REQUIRED_HEADERS_def split_sample_record
    using sample_header_lines by (simp (no_asm_simp)) blast
  have m: "has_move_token sample_record"
    unfolding sample_record_def
    by (intro has_move_token_append has_move_token_Cons has_move_token_e4)
  from validatePGN_accepts [OF h m] m split_sample_record sample_header_lines
  show ?thesis by blast
qed

text \<open>Claim C4 at the example record with the result \<^verbatim>\<open>??\<close>.\<close>

theorem validatePGN_unusual_result_witness:
  "split_nl sample_unusual =
     [header_text (js ''Event'') (js '' '') (js ''x''),
      header_text (js ''Site'') (js '' '') (js ''x''),
      header_text (js ''Date'') (js '' '') (js ''x''),
      header_text (js ''White'') (js '' '') (js ''x''),
      header_text (js ''Black'') (js '' '') (js ''x''),
      header_text (js ''Result'') (js '' '') (js ''??''),
      [], js ''1. e4'']
   \<and> header_line (js ''Result'') (js ''??'') (header_text (js ''Result'') (js '' '') (js ''??''))
   \<and> js ''??'' \<notin> set validResults
   \<and> (\<exists>r. validatePGN (JString sample_unusual) = Inr r \<and> valid r
         \<and> js ''Unusual result format: ??'' \<in> set (warnings r))"
proof -
  have h: "\<forall>k \<in> set REQUIRED_HEADERS. \<exists>line \<in> set (split_nl sample_unusual). \<exists>v. header_line k v line"
    unfolding REQUIRED_HEADERS_def split_sample_unusual
    using sample_header_lines by (simp (no_asm_simp)) blast
  have u: "\<forall>line \<in> set (split_nl sample_unusual). \<forall>v'.
         mentions_header (js ''Result'') v' line \<longrightarrow> v' = js ''??''"
  proof (intro ballI allI impI)
    fix line v'
    assume l: "line \<in> set (split_nl sample_unusual)"
      and "mentions_header (js ''Result'') v' line"
    then have "(js ''Result'', v') \<in> set (all_matches line)"
      using mentions_all_matches Result_word by blast
    moreover from l have "all_matches line = [] \<or> all_matches line = [(js ''Result'', js ''??'')]
        \<or> (\<exists>k. k \<noteq> js ''Result'' \<and> all_matches line = [(k, js ''x'')])"
      unfolding split_sample_unusual using sample_all_matches
      by (auto simp: js_def)
    ultimately show "v' = js ''??''" by auto
  qed
  have c: "js ''??'' \<notin> set validResults" by (simp add: validResults_def js_def)
  have e: "js ''Unusual result format: '' @ js ''??'' = js ''Unusual result format: ??''"
    by (simp add: js_def)
  from validatePGN_unusual_result [OF h u c] c split_sample_unusual sample_header_lines(7)
  show ?thesis unfolding e by blast
qed

text \<open>
  Claim C3, amended, at the example record without a Result line and at a string of one
  space.
\<close>

theorem validatePGN_missing_result_witness:
  "split_nl sample_no_result =
     [header_text (js ''Event'') (js '' '') (js ''x''),
      header_text (js ''Site'') (js '' '') (js ''x''),
      header_text (js ''Date'') (js '' '') (js ''x''),
      header_text (js ''White'') (js '' '') (js ''x''),
      header_text (js ''Black'') (js '' '') (js ''x''),
      [], js ''1. e4'']
   \<and> trim sample_no_result \<noteq> []
   \<and> (\<exists>r. validatePGN (JString sample_no_result) = Inr r \<and> \<not> valid r
         \<and> js ''Missing required header: Result'' \<in> set (errors r))
   \<and> trim (js '' '') = []
   \<and> (\<exists>r. validatePGN (JString (js '' '')) = Inr r \<and> \<not> valid r
         \<and> (errors r = [js ''PGN is empty or invalid type''] \<or> errors r = [js ''PGN is empty'']))"
proof -
  have "header_text (js ''Event'') (js '' '') (js ''x'') \<in> set (split_nl sample_no_result)"
    unfolding split_sample_no_result by simp
  from header_line_extracted(1) [OF Event_required this sample_header_lines(1)]
  have t: "trim sample_no_result \<noteq> []" .
  have n: "\<forall>line \<in> set (split_nl sample_no_result). \<forall>v. \<not> mentions_header (js ''Result'') v line"
  proof (intro ballI allI notI)
    fix line v
    assume l: "line \<in> set (split_nl sample_no_result)"
      and "mentions_header (js ''Result'') v line"
    then have "(js ''Result'', v) \<in> set (all_matches line)"
      using mentions_all_matches Result_word by blast
    moreover from l have "all_matches line = []
        \<or> (\<exists>k. k \<noteq> js ''Result'' \<and> all_matches line = [(k, js ''x'')])"
      unfolding split_sample_no_result using sample_all_matches
      by (auto simp: js_def)
    ultimately show False by auto
  qed
  have s: "trim (js '' '') = []" by (simp add: trim_def js_def isSpace_def)
  from validatePGN_missing_result [of sample_no_result] t n
  have a: "\<exists>r. validatePGN (JString sample_no_result) = Inr r \<and> \<not> valid r
         \<and> js ''Missing required header: Result'' \<in> set (errors r)" by blast
  from validatePGN_missing_result [of "js '' ''"] s
  have b: "\<exists>r. validatePGN (JString (js '' '')) = Inr r \<and> \<not> valid r
         \<and> (errors r = [js ''PGN is empty or invalid type''] \<or> errors r = [js ''PGN is empty''])"
    by blast
  from t a s b split_sample_no_result show ?thesis by blast
qed


section \<open>Properties of the agents\<close>

lemma first_match_Some:
  assumes "\<exists>selector \<in> set sels. query selector \<noteq> None"
  shows "\<exists>i element. i < length sels \<and> query (sels ! i) = Some element
           \<and> (\<forall>j < i. query (sels ! j) = None) \<and> first_match query sels = Some element"
  using assms
proof (induction sels)
  case Nil
  then show ?case by simp
next
  case (Cons s sels)
  show ?case
  proof (cases "query s")
    case (Some e)
    then have "0 < length (s # sels) \<and> query ((s # sels) ! 0) = Some e
        \<and> (\<forall>j < 0. query ((s # sels) ! j) = None) \<and> first_match query (s # sels) = Some e"
      by simp
    then show ?thesis by blast
  next
    case None
    with Cons.prems have "\<exists>selector \<in> set sels. query selector \<noteq> None" by auto
    from Cons.IH [OF this] obtain i e where i: "i < length sels" "query (sels ! i) = Some e"
      "\<forall>j < i. query (sels ! j) = None" "first_match query sels = Some e" by blast
    have "\<forall>j < Suc i. query ((s # sels) ! j) = None"
    proof (intro allI impI)
      fix j assume "j < Suc i"
      then show "query ((s # sels) ! j) = None" using None i(3) by (cases j) auto
    qed
    then have "Suc i < length (s # sels) \<and> query ((s # sels) ! Suc i) = Some e
        \<and> (\<forall>j < Suc i. query ((s # sels) ! j) = None) \<and> first_match query (s # sels) = Some e"
      using i None by simp
    then show ?thesis by blast
  qed
qed

text \<open>
  Claim C6. When at least one selector of the list matches an element at the time of the
  call, \<^verbatim>\<open>waitForElement\<close> resolves inside the call with the element of the first
  selector, in the order of the list, that matches; no timeout is pending and no mutation
  observer is registered.
\<close>

theorem waitForElement_immediate:
  assumes "\<exists>selector \<in> set (selectorArray selectors). query selector \<noteq> None"
  shows "\<exists>i element. i < length (selectorArray selectors)
           \<and> query (selectorArray selectors ! i) = Some element
           \<and> (\<forall>j < i. query (selectorArray selectors ! j) = None)
           \<and> waitForElement selectors timeout query =
               \<lparr>outcome = Some (Resolved element), pending_timeout = None, observing = False\<rparr>"
proof -
  from first_match_Some [OF assms] obtain i e where
    "i < length (selectorArray selectors)" "query (selectorArray selectors ! i) = Some e"
    "\<forall>j < i. query (selectorArray selectors ! j) = None"
    "first_match query (selectorArray selectors) = Some e" by blast
  moreover from this(4) have "waitForElement selectors timeout query =
      \<lparr>outcome = Some (Resolved e), pending_timeout = None, observing = False\<rparr>"
    by (simp add: waitForElement_def)
  ultimately show ?thesis by blast
qed

text \<open>
  Claim C6 at the two selectors of the paste page, of which the second matches, and at
  that selector alone.
\<close>

theorem waitForElement_immediate_witness:
  "waitForElement (Many [''textarea.form-control'', ''textarea'']) 5000
       (\<lambda>selector. if selector = ''textarea'' then Some (1::nat) else None)
     = \<lparr>outcome = Some (Resolved 1), pending_timeout = None, observing = False\<rparr>
   \<and> waitForElement (One ''textarea'') 5000
       (\<lambda>selector. if selector = ''textarea'' then Some (1::nat) else None)
     = \<lparr>outcome = Some (Resolved 1), pending_timeout = None, observing = False\<rparr>"
proof -
  let ?q = "\<lambda>selector. if selector = ''textarea'' then Some (1::nat) else None"
  have a: "\<exists>selector \<in> set (selectorArray (Many [''textarea.form-control'', ''textarea''])).
      ?q selector \<noteq> None" by simp
  have b: "\<exists>selector \<in> set (selectorArray (One ''textarea'')). ?q selector \<noteq> None" by simp
  from waitForElement_immediate [OF a, of 5000] obtain i e where
    "?q (selectorArray (Many [''textarea.form-control'', ''textarea'']) ! i) = Some e"
    and x: "waitForElement (Many [''textarea.form-control'', ''textarea'']) 5000 ?q =
      \<lparr>outcome = Some (Resolved e), pending_timeout = None, observing = False\<rparr>" by blast
  then have "e = 1" by (auto split: if_splits)
  from waitForElement_immediate [OF b, of 5000] obtain i' e' where
    "?q (selectorArray (One ''textarea'') ! i') = Some e'"
    and y: "waitForElement (One ''textarea'') 5000 ?q =
      \<lparr>outcome = Some (Resolved e'), pending_timeout = None, observing = False\<rparr>" by blast
  then have "e' = 1" by (auto split: if_splits)
  show ?thesis using x y \<open>e = 1\<close> \<open>e' = 1\<close> by simp
qed

lemma message_nonempty:
  "CLIPBOARD_READ_DENIED \<noteq> []" "TEXTAREA_NOT_FOUND \<noteq> []"
  by (simp_all add: CLIPBOARD_READ_DENIED_def TEXTAREA_NOT_FOUND_def js_def)

lemma message_or_generic_Error: "m \<noteq> [] \<Longrightarrow> message_or_generic (Error m) = m"
  by (simp add: message_or_generic_def Error_def)

lemma pastePGN_cases:
  "pastePGN clip =
     (case clip of
        Inl error \<Rightarrow> Inl (Error CLIPBOARD_READ_DENIED)
      | Inr text \<Rightarrow>
          if trim text = [] then Inl (Error CLIPBOARD_READ_DENIED)
          else Inr [SetValue text, DispatchEvent ''input'', DispatchEvent ''change''])"
  by (auto simp: pastePGN_def pastePGN_try_def trim_def split: sum.splits)

text \<open>
  Claim C7. On the paste route, on the first run, with a clipboard whose text is empty or
  white space only: the agent shows the loading notification and then turns it into an
  error (the clipboard error when the text area was found, the text-area error otherwise);
  \<^verbatim>\<open>submitForm\<close> is not called, and no form is submitted and no button clicked.
\<close>

theorem empty_clipboard_no_submit:
  assumes "pathname page = js ''/paste''" "clipboard page = Inr text" "trim text = []"
  shows "initializeLichessPaste page False =
           (True, [ShowNotification (next_id page) PASTING_DATA Loading,
                   UpdateNotification (next_id page)
                     (if textarea_found page then CLIPBOARD_READ_DENIED else TEXTAREA_NOT_FOUND)
                     Failure])
         \<and> SubmitFormCalled \<notin> set (snd (initializeLichessPaste page False))
         \<and> FormSubmit \<notin> set (snd (initializeLichessPaste page False))
         \<and> SubmitButtonClick \<notin> set (snd (initializeLichessPaste page False))"
proof -
  have p: "pastePGN (clipboard page) = Inl (Error CLIPBOARD_READ_DENIED)"
    using assms(2,3) by (simp add: pastePGN_cases)
  have "initializeLichessPaste page False =
           (True, [ShowNotification (next_id page) PASTING_DATA Loading,
                   UpdateNotification (next_id page)
                     (if textarea_found page then CLIPBOARD_READ_DENIED else TEXTAREA_NOT_FOUND)
                     Failure])"
    using assms(1) p
    by (simp add: initializeLichessPaste_def paste_try_def Let_def message_or_generic_Error
        message_nonempty)
  then show ?thesis by simp
qed

text \<open>Claim C7 at the example paste page.\<close>

theorem empty_clipboard_no_submit_witness:
  "pathname page0 = js ''/paste'' \<and> clipboard page0 = Inr (js '' '') \<and> trim (js '' '') = []
   \<and> initializeLichessPaste page0 False =
        (True, [ShowNotification 1 PASTING_DATA Loading,
                UpdateNotification 1 CLIPBOARD_READ_DENIED Failure])
   \<and> SubmitFormCalled \<notin> set (snd (initializeLichessPaste page0 False))"
proof -
  have a: "pathname page0 = js ''/paste''" "clipboard page0 = Inr (js '' '')"
    by (simp_all add: page0_def)
  have b: "trim (js '' '') = []" by (simp add: trim_def js_def isSpace_def)
  have c: "textarea_found page0" "next_id page0 = 1" by (simp_all add: page0_def)
  from empty_clipboard_no_submit [OF a b] a b c show ?thesis by simp
qed

text \<open>
  Claim C8, as it is worded, at a read that is rejected with \<^verbatim>\<open>NotAllowedError\<close>, at
  the empty clipboard and at a clipboard of one space: all three fail with the same error
  \<^verbatim>\<open>new Error(ERROR_MESSAGES.CLIPBOARD_READ_DENIED)\<close>.
\<close>

theorem pastePGN_same_error_counterexample:
  "pastePGN (Inl \<lparr>exn_name = js ''NotAllowedError'', exn_message = js ''Read permission denied.''\<rparr>)
     = Inl (Error CLIPBOARD_READ_DENIED)
   \<and> pastePGN (Inr []) = Inl (Error CLIPBOARD_READ_DENIED)
   \<and> pastePGN (Inr (js '' '')) = Inl (Error CLIPBOARD_READ_DENIED)"
  by (simp add: pastePGN_cases trim_def js_def isSpace_def)

text \<open>
  Claim C8, amended. \<^verbatim>\<open>pastePGN\<close> fails exactly when the read is rejected or the text is
  empty or white space only, and every failure is the one error
  \<^verbatim>\<open>new Error(ERROR_MESSAGES.CLIPBOARD_READ_DENIED)\<close>, which differs from the agent's
  other error, \<^verbatim>\<open>new Error(ERROR_MESSAGES.TEXTAREA_NOT_FOUND)\<close>.
\<close>

theorem pastePGN_one_error:
  "(pastePGN clip = Inl (Error CLIPBOARD_READ_DENIED)
      \<longleftrightarrow> (\<exists>error. clip = Inl error) \<or> (\<exists>text. clip = Inr text \<and> trim text = []))
   \<and> (\<forall>e. pastePGN clip = Inl e \<longrightarrow> e = Error CLIPBOARD_READ_DENIED)
   \<and> Error CLIPBOARD_READ_DENIED \<noteq> Error TEXTAREA_NOT_FOUND"
proof -
  have "CLIPBOARD_READ_DENIED \<noteq> TEXTAREA_NOT_FOUND"
    by (simp add: CLIPBOARD_READ_DENIED_def TEXTAREA_NOT_FOUND_def js_def)
  then have "Error CLIPBOARD_READ_DENIED \<noteq> Error TEXTAREA_NOT_FOUND"
    by (simp add: Error_def)
  then show ?thesis by (auto simp: pastePGN_cases split: sum.splits)
qed

text \<open>Claim C8, amended, at a clipboard of one space and at a rejected read.\<close>

theorem pastePGN_one_error_witness:
  "pastePGN (Inr (js '' '')) = Inl (Error CLIPBOARD_READ_DENIED)
   \<and> pastePGN (Inl \<lparr>exn_name = js ''NotAllowedError'', exn_message = []\<rparr>)
       = Inl (Error CLIPBOARD_READ_DENIED)"
proof -
  have "trim (js '' '') = []" by (simp add: trim_def js_def isSpace_def)
  then show ?thesis
    using pastePGN_one_error [of "Inr (js '' '')"]
      pastePGN_one_error [of "Inl \<lparr>exn_name = js ''NotAllowedError'', exn_message = []\<rparr>"]
    by blast
qed


section \<open>Properties of the source-page agent\<close>

lemma call_busy: "isProcessing st \<Longrightarrow> handleButtonClick_call st = None"
  by (simp add: handleButtonClick_call_def)

lemma updateButtonState_flag:
  "updateButtonState s st = (st', evs) \<Longrightarrow> isProcessing st' = isProcessing st"
  by (auto simp: updateButtonState_def split: if_splits)

lemma resume_flag:
  assumes "handleButtonClick_resume page n st = (st', evs, delay)"
  shows "isProcessing st' = isProcessing st \<and> 2000 \<le> delay"
  using assms
  by (auto simp: handleButtonClick_resume_def Let_def
      split: prod.splits option.splits dest: updateButtonState_flag)

lemma fire_debounce_busy:
  "isProcessing (src a) \<Longrightarrow> fire_debounce t page a = a\<lparr>debounce_timer := None\<rparr>"
  by (simp add: fire_debounce_def call_busy)

lemma run_until_debounce_only:
  assumes busy: "isProcessing (src a)"
    and d: "debounce_timer a = Some d" "d \<le> t"
    and r: "\<forall>f. resume_timer a = Some f \<longrightarrow> d < f"
    and s: "\<forall>r. reset_timer a = Some r \<longrightarrow> d < r"
  shows "run_until t page a = run_until t page (a\<lparr>debounce_timer := None\<rparr>)"
proof -
  have "next_timer a = Some (Debounce, d)"
    using d(1) r s by (auto simp: next_timer_def earlier_def split: option.splits)
  then have "run_until t page a = run_until t page (fire Debounce d page a)"
    using d(2) by (simp add: run_until.simps [of t page a])
  then show ?thesis using busy by (simp add: fire_def fire_debounce_busy)
qed

lemma run_until_idle:
  assumes "\<forall>f. resume_timer a = Some f \<longrightarrow> t < f"
    and "\<forall>r. reset_timer a = Some r \<longrightarrow> t < r"
    and "\<forall>d. debounce_timer a = Some d \<longrightarrow> t < d"
  shows "run_until t page a = a"
proof (cases "next_timer a")
  case None
  then show ?thesis by (simp add: run_until.simps [of t page a])
next
  case (Some x)
  obtain k due where x: "x = (k, due)" by (cases x)
  with Some assms have "t < due"
    by (auto simp: next_timer_def split: if_splits)
  with Some x show ?thesis by (simp add: run_until.simps [of t page a])
qed

text \<open>
  Claim C9, amended. Take the agent at time \<open>t\<close> with \<^verbatim>\<open>isProcessing\<close> set, the awaits
  of the running handler (if any) still to end, and the reset (if pending) due more than
  300 ms later. A call of the handler would return at its guard. A click that reaches the
  listener changes nothing but the debounce timer: state, events and the other timers are
  as before. And 300 ms later, when that timer has fired, the agent is what it would be
  had the click only cancelled the debounced call that was pending: no extraction, no
  clipboard write, no new tab and no change of the button or the flag come from the click.
\<close>

theorem late_activation_ignored:
  assumes busy: "isProcessing (src a)"
    and r: "\<forall>f. resume_timer a = Some f \<longrightarrow> t < f"
    and s: "\<forall>r. reset_timer a = Some r \<longrightarrow> t + 300 < r"
  shows "handleButtonClick_call (src a) = None
         \<and> src (debounced t a) = src a \<and> history (debounced t a) = history a
         \<and> resume_timer (debounced t a) = resume_timer a
         \<and> reset_timer (debounced t a) = reset_timer a
         \<and> run_until (t + 300) page (debounced t a)
             = run_until (t + 300) page (a\<lparr>debounce_timer := None\<rparr>)"
proof -
  let ?b = "debounced t a" and ?c = "a\<lparr>debounce_timer := None\<rparr>"
  have bc: "?b\<lparr>debounce_timer := None\<rparr> = ?c" by (simp add: debounced_def)
  have run: "run_until (t + 300) page ?b = run_until (t + 300) page ?c"
  proof (cases "\<exists>f. resume_timer a = Some f \<and> f \<le> t + 300")
    case False
    have "run_until (t + 300) page ?b = run_until (t + 300) page (?b\<lparr>debounce_timer := None\<rparr>)"
    proof (rule run_until_debounce_only [where d = "t + 300"])
      show "isProcessing (src ?b)" using busy by (simp add: debounced_def)
      show "debounce_timer ?b = Some (t + 300)" by (simp add: debounced_def)
      show "t + 300 \<le> t + 300" by simp
      show "\<forall>f. resume_timer ?b = Some f \<longrightarrow> t + 300 < f"
        using False by (auto simp: debounced_def)
      show "\<forall>r. reset_timer ?b = Some r \<longrightarrow> t + 300 < r"
        using s by (simp add: debounced_def)
    qed
    then show ?thesis unfolding bc .
  next
    case True
    then obtain f where f: "resume_timer a = Some f" "f \<le> t + 300" by blast
    with r have tf: "t < f" by blast
    obtain st' evs delay where h:
      "handleButtonClick_resume page (notificationId a) (src a) = (st', evs, delay)"
      by (cases "handleButtonClick_resume page (notificationId a) (src a)") auto
    from resume_flag [OF h] busy have busy': "isProcessing st'" and delay: "2000 \<le> delay"
      by simp_all
    let ?c1 = "a\<lparr>src := st', resume_timer := None, reset_timer := Some (f + delay),
                  history := history a @ evs, debounce_timer := None\<rparr>"
    let ?b1 = "a\<lparr>src := st', resume_timer := None, reset_timer := Some (f + delay),
                  history := history a @ evs, debounce_timer := Some (t + 300)\<rparr>"
    have nb: "next_timer ?b = Some (Resume, f)"
      using f s by (auto simp: next_timer_def earlier_def debounced_def split: option.splits)
    have nc: "next_timer ?c = Some (Resume, f)"
      using f s by (auto simp: next_timer_def earlier_def split: option.splits)
    have fb: "fire Resume f page ?b = ?b1"
      using h by (simp add: fire_def fire_resume_def debounced_def)
    have fc: "fire Resume f page ?c = ?c1"
      using h by (simp add: fire_def fire_resume_def)
    have 1: "run_until (t + 300) page ?b = run_until (t + 300) page ?b1"
      using nb f(2) fb by (simp add: run_until.simps [of "t + 300" page ?b])
    have 2: "run_until (t + 300) page ?c = run_until (t + 300) page ?c1"
      using nc f(2) fc by (simp add: run_until.simps [of "t + 300" page ?c])
    have "run_until (t + 300) page ?b1 = run_until (t + 300) page (?b1\<lparr>debounce_timer := None\<rparr>)"
    proof (rule run_until_debounce_only [where d = "t + 300"])
      show "isProcessing (src ?b1)" using busy' by simp
      show "debounce_timer ?b1 = Some (t + 300)" by simp
      show "t + 300 \<le> t + 300" by simp
      show "\<forall>f. resume_timer ?b1 = Some f \<longrightarrow> t + 300 < f" by simp
      show "\<forall>r. reset_timer ?b1 = Some r \<longrightarrow> t + 300 < r" using tf delay by simp
    qed
    moreover have "?b1\<lparr>debounce_timer := None\<rparr> = ?c1" by simp
    ultimately show ?thesis using 1 2 by simp
  qed
  show ?thesis using run busy by (simp add: debounced_def call_busy)
qed

lemma sanitize_e4: "sanitizePGN (JString (js ''1. e4'')) = Inr (js ''1. e4'')"
  by (simp add: sanitizePGN_def sanitize_string_def js_def script_at_def ci_eq_def
      isLower_def isUpper_def replace_cr_def trim_def isSpace_def)

lemmas agent_eval =
  pointer_click_def debounced_def next_timer_def earlier_def fire_def fire_debounce_def
  fire_resume_def fire_reset_def handleButtonClick_call_def handleButtonClick_resume_def
  reset_button_def updateButtonState_def click_try_def Let_def message_or_generic_def Error_def

lemma blocked_page_eval:
  "extracted blocked_page = Inr (js ''1. e4'')" "js ''1. e4'' \<noteq> []"
  "clipboard_writable blocked_page" "\<not> tab_opens blocked_page" "work_ms blocked_page = 100"
  "LICHESS_TAB_FAILED \<noteq> []"
  by (simp_all add: blocked_page_def js_def LICHESS_TAB_FAILED_def)

lemma first_run_eval:
  "first_run =
     \<lparr>src = \<lparr>isProcessing = True, sendButton = True, button = ''error'', pointerEvents = True,
             notificationCounter = 1\<rparr>,
      notificationId = 1, debounce_timer = None, resume_timer = None, reset_timer = Some 3400,
      history =
        [SetButton ''loading'', ShowNotification 1 EXTRACTING_PGN Loading, ExtractPGN,
         UpdateNotification 1 OPENING_LICHESS Loading, ClipboardWrite (js ''1. e4''),
         SetButton ''error'', UpdateNotification 1 LICHESS_TAB_FAILED Failure,
         SetTimeout 3000]\<rparr>"
  unfolding first_run_def idle_agent_def
  by (simp add: run_until.simps agent_eval blocked_page_eval sanitize_e4)

text \<open>
  Claim C9, as it is worded, on a page where the new tab is blocked. A click at time 0 is
  handled at 300; the run fails at 400, the button shows the error with
  \<^verbatim>\<open>pointerEvents\<close> \<^verbatim>\<open>'auto'\<close>, and the reset is due at 3400. A click at 3200 finds
  \<^verbatim>\<open>isProcessing\<close> set; its debounced call comes at 3500, after the reset, and runs the
  handler again: the record is extracted and written to the clipboard a second time, and
  the button changes.
\<close>

theorem late_activation_counterexample:
  "isProcessing (src first_run) \<and> pointerEvents (src first_run)
   \<and> reset_timer first_run = Some 3400
   \<and> history first_run =
        [SetButton ''loading'', ShowNotification 1 EXTRACTING_PGN Loading, ExtractPGN,
         UpdateNotification 1 OPENING_LICHESS Loading, ClipboardWrite (js ''1. e4''),
         SetButton ''error'', UpdateNotification 1 LICHESS_TAB_FAILED Failure,
         SetTimeout 3000]
   \<and> history (run_until 3600 blocked_page (pointer_click 3200 first_run)) =
        history first_run
          @ [SetButton ''idle'', SetButton ''loading'', ShowNotification 2 EXTRACTING_PGN Loading,
             ExtractPGN, UpdateNotification 2 OPENING_LICHESS Loading,
             ClipboardWrite (js ''1. e4''), SetButton ''error'',
             UpdateNotification 2 LICHESS_TAB_FAILED Failure, SetTimeout 3000]"
  unfolding first_run_eval
  by (simp add: run_until.simps agent_eval blocked_page_eval sanitize_e4)

lemma in_flight_eval:
  "in_flight =
     \<lparr>src = \<lparr>isProcessing = True, sendButton = True, button = ''loading'',
             pointerEvents = False, notificationCounter = 1\<rparr>,
      notificationId = 1, debounce_timer = None, resume_timer = Some 400, reset_timer = None,
      history = [SetButton ''loading'', ShowNotification 1 EXTRACTING_PGN Loading, ExtractPGN]\<rparr>"
  unfolding in_flight_def idle_agent_def
  by (simp add: run_until.simps agent_eval blocked_page_eval)

lemma in_flight_resumed: "run_until 650 blocked_page (in_flight\<lparr>debounce_timer := None\<rparr>) = first_run"
  unfolding in_flight_eval first_run_eval
  by (simp add: run_until.simps agent_eval blocked_page_eval sanitize_e4)

text \<open>
  Claim C9, amended, in the same run: at time 3000, 400 ms before the reset, and at time
  350, while the handler is in its awaits. By 3300 and by 650 the click has left no trace:
  the agent is as it is at 3200 without any second click.
\<close>

theorem late_activation_ignored_witness:
  "isProcessing (src first_run) \<and> resume_timer first_run = None
   \<and> reset_timer first_run = Some 3400
   \<and> run_until 3300 blocked_page (debounced 3000 first_run) = first_run
   \<and> isProcessing (src in_flight) \<and> resume_timer in_flight = Some 400
   \<and> reset_timer in_flight = None
   \<and> run_until 650 blocked_page (debounced 350 in_flight) = first_run"
proof -
  have a: "isProcessing (src first_run)" "resume_timer first_run = None"
    "reset_timer first_run = Some 3400" "debounce_timer first_run = None"
    by (simp_all add: first_run_eval)
  have r: "\<forall>f. resume_timer first_run = Some f \<longrightarrow> 3000 < f" using a by simp
  have s: "\<forall>r. reset_timer first_run = Some r \<longrightarrow> 3000 + 300 < r" using a by simp
  have c: "first_run\<lparr>debounce_timer := None\<rparr> = first_run" using a(4) by simp
  have i: "run_until 3300 blocked_page first_run = first_run"
    by (rule run_until_idle) (simp_all add: a)
  have b: "isProcessing (src in_flight)" "resume_timer in_flight = Some 400"
    "reset_timer in_flight = None"
    by (simp_all add: in_flight_eval)
  have r': "\<forall>f. resume_timer in_flight = Some f \<longrightarrow> 350 < f" using b by simp
  have s': "\<forall>r. reset_timer in_flight = Some r \<longrightarrow> 350 + 300 < r" using b by simp
  from late_activation_ignored [OF a(1) r s, of blocked_page] c i
  have 1: "run_until 3300 blocked_page (debounced 3000 first_run) = first_run" by simp
  from late_activation_ignored [OF b(1) r' s', of blocked_page] in_flight_resumed
  have 2: "run_until 650 blocked_page (debounced 350 in_flight) = first_run" by simp
  show ?thesis using a b 1 2 by simp
qed

end
